theory Spec2Isabelle
  imports Main "HOL-Library.Multiset" "HOL-Library.Char_ord" "HOL-Library.List_Lexorder"
begin

section \<open>The render window of VSIM\_Oblig\_3 (renderwindow.cpp)\<close>

text \<open>
  The class \<open>RenderWindow\<close> is embedded as a record of its members and one function per
  member function. Every call that leaves the class (to OpenGL, the context, the camera,
  a shader, a drawable object, the logger, the status bar) is appended to \<open>trace\<close>, oldest
  first, so that the order of the calls of a frame can be stated and proved.
  What a collaborator hands back in a call (the result of \<open>makeCurrent\<close>, the elapsed
  nanoseconds, the position of the camera) is an input of the function that makes the call.
\<close>

subsection \<open>Values\<close>

text \<open>
  A \<open>QVector3D\<close> holds three 32-bit floats. Every vector this file computes on has
  integer components (the rain positions are built from \<open>int\<close> expressions, the camera moves
  in steps of one), so a component is modelled as the integer it holds; rounding to the
  float grid is written out where the source adds to a component (\<open>f32\<close> below).
\<close>

type_synonym vec3 = "int \<times> int \<times> int"

fun vx :: "vec3 \<Rightarrow> int" where "vx (x, y, z) = x"
fun vy :: "vec3 \<Rightarrow> int" where "vy (x, y, z) = y"
fun vz :: "vec3 \<Rightarrow> int" where "vz (x, y, z) = z"

fun setX :: "int \<Rightarrow> vec3 \<Rightarrow> vec3" where "setX a (x, y, z) = (a, y, z)"
fun setY :: "int \<Rightarrow> vec3 \<Rightarrow> vec3" where "setY a (x, y, z) = (x, a, z)"
fun setZ :: "int \<Rightarrow> vec3 \<Rightarrow> vec3" where "setZ a (x, y, z) = (x, y, a)"

text \<open>
  The spacing of the 32-bit floats at magnitude \<open>m\<close>: 1 below \<open>2^24\<close> (24 bits of
  significand), doubling with every further binade.
\<close>

function ulp :: "nat \<Rightarrow> nat" where
  "ulp m = (if m < 16777216 then 1 else 2 * ulp (m div 2))"
  by pat_completeness auto
termination
  by (relation "measure (\<lambda>m. m)") auto

text \<open>
  \<open>f32 n\<close> is the 32-bit float nearest to the integer \<open>n\<close>, ties to the even significand
  (the IEEE 754 default rounding), for \<open>n\<close> below the largest finite float.
\<close>

definition f32 :: "int \<Rightarrow> int" where
  "f32 n =
     (let m = nat \<bar>n\<bar>; u = ulp m; q = m div u; r = m mod u;
          q' = (if 2 * r < u \<or> (2 * r = u \<and> even q) then q else q + 1)
      in sgn n * int (q' * u))"

datatype shader = Shader string string

datatype logtype = LOG | HIGHLIGHT | REALERROR

datatype matrix_ref = Camera_mVmatrix | Camera_mPmatrix

datatype objcall =
    OInit
  | OUpdateTransform
  | ODraw
  | OGetPosition
  | OSetSurface "string option"
  | OSetPosition vec3
  | OEnablePhysics
  | OAddLife

datatype objclass =
    SurfaceMesh "shader option"
  | RollingBall string "shader option"

text \<open>
  The classes \<open>SurfaceMesh\<close> and \<open>RollingBall\<close> are defined in other files. An object is
  modelled by how it was constructed and by the calls it has received since, oldest first.
\<close>

record visualobject =
  constructed :: objclass
  received :: "objcall list"

definition new_object :: "objclass \<Rightarrow> visualobject" where
  "new_object c = \<lparr>constructed = c, received = []\<rparr>"

definition send :: "objcall \<Rightarrow> visualobject \<Rightarrow> visualobject" where
  "send c ob = ob\<lparr>received := received ob @ [c]\<rparr>"

datatype objref = Registered string | RainDrop nat

datatype call =
    Connect_timeout_render
  | MakeCurrent
  | LogText string logtype
  | LogGpuInfo
  | InitializeOpenGLFunctions
  | StartOpenGLDebugger
  | GlEnable_DEPTH_TEST
  | GlClearColor
  | GlBindVertexArray0
  | GlClear
  | GlViewport
  | TimerStart16
  | ClockStart
  | ClockRestart
  | NewShader shader
  | NewCamera
  | CameraInit
  | CameraPerspective int int
  | CameraLookAt vec3 vec3 vec3
  | ShaderUse shader
  | SetUniformMatrix4fv shader matrix_ref string
  | SetUniform3f shader int int int string
  | NewObject objclass
  | ObjCall objref objcall
  | SwapBuffers
  | ShowMessage int
  | MainWindowClose
  | QDebug int vec3

subsection \<open>The two registries\<close>

text \<open>
  \<open>mShaders\<close> and \<open>mMap\<close> are declared in renderwindow.h, which is not part of the
  sources at hand. The calls made on them, \<open>insert(std::pair<std::string, T*>)\<close>,
  \<open>operator[](key)\<close> and \<open>begin()\<close>/\<open>end()\<close> over pairs, are those of the standard
  associative containers. A registry is modelled as its entries in the order of their
  insertion; the order in which \<open>begin()\<close> to \<open>end()\<close> runs through the keys is a parameter
  \<open>arrange\<close>, a function of the keys in insertion order (ascending keys for \<open>std::map\<close>).
  A value is a pointer: \<open>None\<close> is \<open>nullptr\<close>.
\<close>

type_synonym 'p registry = "(string \<times> 'p option) list"

definition reg_insert :: "string \<Rightarrow> 'p option \<Rightarrow> 'p registry \<Rightarrow> 'p registry" where
  "reg_insert k p r = (if k \<in> set (map fst r) then r else r @ [(k, p)])"

definition reg_index :: "string \<Rightarrow> 'p registry \<Rightarrow> 'p option \<times> 'p registry" where
  "reg_index k r =
     (case map_of r k of
        Some p \<Rightarrow> (p, r)
      | None \<Rightarrow> (None, r @ [(k, None)]))"

definition reg_keys :: "(string list \<Rightarrow> string list) \<Rightarrow> 'p registry \<Rightarrow> string list" where
  "reg_keys arrange r = arrange (map fst r)"

definition reg_update :: "string \<Rightarrow> 'p \<Rightarrow> 'p registry \<Rightarrow> 'p registry" where
  "reg_update k p r = map (\<lambda>(k', v). if k' = k then (k', Some p) else (k', v)) r"

definition insertion_order :: "string list \<Rightarrow> string list" where
  "insertion_order ks = ks"

definition key_order :: "string list \<Rightarrow> string list" where
  "key_order ks = sort ks"

subsection \<open>The members of RenderWindow\<close>

text \<open>
  The OpenGL entry points (\<open>glViewport\<close>, \<open>glClear\<close>, ...) are member functions that the
  class inherits from Qt's OpenGL functions class (\<open>QOpenGLFunctions\<close> is included; the base
  is named in renderwindow.h). They are resolved by \<open>initializeOpenGLFunctions()\<close>, and by
  the comment at that call in \<open>init\<close> (``must call this to use OpenGL functions'') they may
  not be called before it: \<open>glFunctions\<close> says whether that call has been made on this
  window.
\<close>

record 'g renderwindow =
  mInitialized :: bool
  glFunctions :: bool
  mMainWindow :: bool
  mCamera :: bool
  mShaders :: "shader registry"
  mMap :: "visualobject registry"
  CamPos :: vec3
  ActivateRain :: bool
  mRainAmount :: int
  mRainDrops :: "visualobject list"
  frameCount :: int
  prng :: 'g
  trace :: "call list"

definition emit :: "call list \<Rightarrow> 'g renderwindow \<Rightarrow> 'g renderwindow" where
  "emit cs s = s\<lparr>trace := trace s @ cs\<rparr>"

subsection \<open>calculateFramerate\<close>

text \<open>
  \<open>frameCount\<close> is the function's static counter. The message shown is a function of
  \<open>nsecElapsed\<close> alone, so the call \<open>ShowMessage nsecElapsed\<close> stands for it. The constant
  30 of the source is the parameter \<open>period\<close> of \<open>calculateFramerate_every\<close>.
\<close>

definition calculateFramerate_every :: "int \<Rightarrow> int \<Rightarrow> 'g renderwindow \<Rightarrow> 'g renderwindow" where
  "calculateFramerate_every period nsecElapsed s =
     (if mMainWindow s then
        (let s1 = s\<lparr>frameCount := frameCount s + 1\<rparr>
         in if frameCount s1 > period
            then (emit [ShowMessage nsecElapsed] s1)\<lparr>frameCount := 0\<rparr>
            else s1)
      else s)"

definition calculateFramerate :: "int \<Rightarrow> 'g renderwindow \<Rightarrow> 'g renderwindow" where
  "calculateFramerate = calculateFramerate_every 30"

subsection \<open>Loops over the registries\<close>

text \<open>
  Both loops over \<open>mMap\<close> run from \<open>begin()\<close> to \<open>end()\<close> and call member functions
  through \<open>(*it).second\<close>; they differ in the calls only. Calling through a null pointer
  is undefined behaviour: the result \<open>None\<close>.
\<close>

definition send_all :: "objcall list \<Rightarrow> visualobject \<Rightarrow> visualobject" where
  "send_all cs ob = foldl (\<lambda>ob c. send c ob) ob cs"

fun visit_all ::
  "objcall list \<Rightarrow> string list \<Rightarrow> visualobject registry \<times> call list \<Rightarrow>
     (visualobject registry \<times> call list) option" where
  "visit_all cs [] acc = Some acc"
| "visit_all cs (k # ks) (r, tr) =
     (case map_of r k of
        Some (Some ob) \<Rightarrow>
          visit_all cs ks (reg_update k (send_all cs ob) r, tr @ map (ObjCall (Registered k)) cs)
      | _ \<Rightarrow> None)"

definition for_each_object ::
  "(string list \<Rightarrow> string list) \<Rightarrow> objcall list \<Rightarrow> 'g renderwindow \<Rightarrow> 'g renderwindow option" where
  "for_each_object arrange cs s =
     (case visit_all cs (reg_keys arrange (mMap s)) (mMap s, []) of
        None \<Rightarrow> None
      | Some (r, tr) \<Rightarrow> Some (emit tr (s\<lparr>mMap := r\<rparr>)))"

text \<open>The loop of \<open>render\<close> over \<open>mShaders\<close>; \<open>pos\<close> is what \<open>mCamera->GetPosition()\<close> returns.\<close>

definition shader_calls :: "vec3 \<Rightarrow> string \<Rightarrow> shader \<Rightarrow> call list" where
  "shader_calls pos k sh =
     [ShaderUse sh,
      SetUniformMatrix4fv sh Camera_mVmatrix ''vMatrix'',
      SetUniformMatrix4fv sh Camera_mPmatrix ''pMatrix''] @
     (if k = ''LightShader''
      then [SetUniform3f sh (vx pos) (vy pos) (vy pos) ''cameraPosition'']
      else [])"

fun shader_loop :: "vec3 \<Rightarrow> shader registry \<Rightarrow> string list \<Rightarrow> call list option" where
  "shader_loop pos r [] = Some []"
| "shader_loop pos r (k # ks) =
     (case map_of r k of
        Some (Some sh) \<Rightarrow>
          (case shader_loop pos r ks of
             None \<Rightarrow> None
           | Some tr \<Rightarrow> Some (shader_calls pos k sh @ tr))
      | _ \<Rightarrow> None)"

definition rain_calls :: "objcall list" where
  "rain_calls = [OAddLife, OUpdateTransform, ODraw]"

definition rain_loop :: "'g renderwindow \<Rightarrow> 'g renderwindow" where
  "rain_loop s =
     emit (concat (map (\<lambda>i. map (ObjCall (RainDrop i)) rain_calls) [0 ..< length (mRainDrops s)]))
       (s\<lparr>mRainDrops := map (send_all rain_calls) (mRainDrops s)\<rparr>)"

subsection \<open>init\<close>

definition ball_obj :: string where
  "ball_obj = ''../VSIM_Oblig_3/ball.obj''"

definition the_shaders :: "(string \<times> shader) list" where
  "the_shaders =
     [(''PlainShader'', Shader ''../VSIM_Oblig_3/plainshader.vert'' ''../VSIM_Oblig_3/plainshader.frag''),
      (''TextureShader'', Shader ''../VSIM_Oblig_3/textureshader.vert'' ''../VSIM_Oblig_3/textureshader.frag''),
      (''LightShader'', Shader ''../VSIM_Oblig_3/lightshader.vert'' ''../VSIM_Oblig_3/lightshader.frag''),
      (''HeightShader'', Shader ''../VSIM_Oblig_3/heightshader.vert'' ''../VSIM_Oblig_3/heightshader.frag'')]"

definition insert_shader :: "string \<times> shader \<Rightarrow> 'g renderwindow \<Rightarrow> 'g renderwindow" where
  "insert_shader e s =
     emit [NewShader (snd e)] (s\<lparr>mShaders := reg_insert (fst e) (Some (snd e)) (mShaders s)\<rparr>)"

text \<open>
  \<open>insert_object k mk\<close> is \<open>mMap.insert({k, new C(..., mShaders["PlainShader"])})\<close>:
  \<open>operator[]\<close> on \<open>mShaders\<close> first (it adds a null entry when the key is missing),
  then the constructor, then the insertion.
\<close>

definition insert_object ::
  "string \<Rightarrow> (shader option \<Rightarrow> objclass) \<Rightarrow> 'g renderwindow \<Rightarrow> 'g renderwindow" where
  "insert_object k mk s =
     (let (p, sh) = reg_index ''PlainShader'' (mShaders s)
      in emit [NewObject (mk p)]
           (s\<lparr>mShaders := sh, mMap := reg_insert k (Some (new_object (mk p))) (mMap s)\<rparr>))"

text \<open>
  \<open>mBall = dynamic_cast<RollingBall*>(mMap["Ball"]); if (mBall) mBall->SetSurface(mMap["Surface"])\<close>.
  The pointer handed to \<open>SetSurface\<close> is named by its key, \<open>None\<close> when it is null.
\<close>

definition wire_ball :: "'g renderwindow \<Rightarrow> 'g renderwindow" where
  "wire_ball s =
     (let (b, m1) = reg_index ''Ball'' (mMap s)
      in case b of
           Some ob \<Rightarrow>
             (case constructed ob of
                RollingBall f p \<Rightarrow>
                  (let (sf, m2) = reg_index ''Surface'' m1;
                       c = OSetSurface (case sf of None \<Rightarrow> None | Some x \<Rightarrow> Some ''Surface'')
                   in emit [ObjCall (Registered ''Ball'') c]
                        (s\<lparr>mMap := reg_update ''Ball'' (send c ob) m2\<rparr>))
              | SurfaceMesh p \<Rightarrow> s\<lparr>mMap := m1\<rparr>)
         | None \<Rightarrow> s\<lparr>mMap := m1\<rparr>)"

text \<open>
  The statements of \<open>init\<close> from the test of \<open>mInitialized\<close> up to the wiring of the
  ball: the flag, the OpenGL set-up, the four shaders, the camera, the two objects.
  The report on the GPU, whose text the driver supplies, and \<open>startOpenGLDebugger()\<close>
  are one call each.
\<close>

definition init_setup :: "'g renderwindow \<Rightarrow> 'g renderwindow" where
  "init_setup s1 =
     (let s2 = (if \<not> mInitialized s1 then s1\<lparr>mInitialized := True\<rparr> else s1);
          s3 = emit [InitializeOpenGLFunctions, LogText ''The active GPU and API:'' HIGHLIGHT,
                     LogGpuInfo, StartOpenGLDebugger, GlEnable_DEPTH_TEST, GlClearColor]
                 (s2\<lparr>glFunctions := True\<rparr>);
          s4 = foldl (\<lambda>s e. insert_shader e s) s3 the_shaders;
          s5 = emit [NewCamera] (s4\<lparr>mCamera := True\<rparr>);
          s6 = insert_object ''Surface'' SurfaceMesh s5;
          s7 = insert_object ''Ball'' (RollingBall ball_obj) s6
      in wire_ball s7)"

text \<open>
  \<open>init arrange ok\<close>: \<open>ok\<close> is what \<open>mContext->makeCurrent(this)\<close> returns. The signal is
  connected before the context is tested; when the test fails the function logs and
  returns: \<open>mInitialized\<close> stays as it was and \<open>initializeOpenGLFunctions()\<close> is not
  reached. The loop at the end initialises every object of \<open>mMap\<close>.
\<close>

definition init :: "(string list \<Rightarrow> string list) \<Rightarrow> bool \<Rightarrow> 'g renderwindow \<Rightarrow> 'g renderwindow option" where
  "init arrange ok s =
     (let s1 = emit [Connect_timeout_render, MakeCurrent] s
      in if \<not> ok then Some (emit [LogText ''makeCurrent() failed'' REALERROR] s1)
         else
           (case for_each_object arrange [OInit, OUpdateTransform] (init_setup s1) of
              None \<Rightarrow> None
            | Some s9 \<Rightarrow> Some (emit [GlBindVertexArray0] s9)))"

subsection \<open>render\<close>

text \<open>What the collaborators hand back during one frame.\<close>

record frame_input =
  makeCurrent_ok :: bool
  nsecsElapsed :: int
  win_width :: int
  win_height :: int
  ball_position :: vec3
  camera_position :: vec3

definition vadd :: "vec3 \<Rightarrow> vec3 \<Rightarrow> vec3" where
  "vadd a b = (vx a + vx b, vy a + vy b, vz a + vz b)"

text \<open>
  The statements of \<open>render\<close> after \<open>calculateFramerate()\<close>. The value of \<open>makeCurrent\<close>
  is not read. \<open>mCamera\<close> and \<open>mMap["Ball"]\<close> are dereferenced without a test.
\<close>

definition draw_frame ::
  "(string list \<Rightarrow> string list) \<Rightarrow> (string list \<Rightarrow> string list) \<Rightarrow> frame_input \<Rightarrow>
     'g renderwindow \<Rightarrow> 'g renderwindow option" where
  "draw_frame arrS arrM inp s1 =
     (let s2 = emit [ClockRestart, MakeCurrent, InitializeOpenGLFunctions, GlClear]
                 (s1\<lparr>glFunctions := True\<rparr>)
      in if \<not> mCamera s2 then None
         else
           (let s3 = emit [CameraInit, CameraPerspective (win_width inp) (win_height inp)] s2;
                (b, m) = reg_index ''Ball'' (mMap s3)
            in case b of
                 None \<Rightarrow> None
               | Some ob \<Rightarrow>
                   (let s4 = emit [ObjCall (Registered ''Ball'') OGetPosition,
                                   CameraLookAt (CamPos s3) (vadd (ball_position inp) (0, 0, 0)) (0, 1, 0)]
                               (s3\<lparr>mMap := reg_update ''Ball'' (send OGetPosition ob) m\<rparr>)
                    in case shader_loop (camera_position inp) (mShaders s4) (reg_keys arrS (mShaders s4)) of
                         None \<Rightarrow> None
                       | Some tr \<Rightarrow>
                           (let s5 = emit tr s4;
                                s6 = (if ActivateRain s5 then rain_loop s5 else s5)
                            in case for_each_object arrM [OUpdateTransform, ODraw] s6 of
                                 None \<Rightarrow> None
                               | Some s7 \<Rightarrow> Some (emit [SwapBuffers] s7)))))"

text \<open>
  \<open>render_every period\<close> is \<open>render\<close> with the constant 30 of \<open>calculateFramerate\<close> as a
  parameter.
\<close>

definition render_every ::
  "int \<Rightarrow> (string list \<Rightarrow> string list) \<Rightarrow> (string list \<Rightarrow> string list) \<Rightarrow> frame_input \<Rightarrow>
     'g renderwindow \<Rightarrow> 'g renderwindow option" where
  "render_every period arrS arrM inp s =
     draw_frame arrS arrM inp (calculateFramerate_every period (nsecsElapsed inp) s)"

definition render ::
  "(string list \<Rightarrow> string list) \<Rightarrow> (string list \<Rightarrow> string list) \<Rightarrow> frame_input \<Rightarrow>
     'g renderwindow \<Rightarrow> 'g renderwindow option" where
  "render = render_every 30"

subsection \<open>exposeEvent\<close>

text \<open>
  \<open>ok\<close> is the result of \<open>makeCurrent\<close> should \<open>init\<close> run; \<open>exposed\<close> is \<open>isExposed()\<close>.
  \<open>glViewport\<close> is called whatever \<open>init\<close> did. When \<open>init\<close> has returned at the failed
  \<open>makeCurrent\<close>, no \<open>initializeOpenGLFunctions()\<close> has been made and the call of \<open>glViewport\<close>
  is undefined behaviour: the result \<open>None\<close>.
\<close>

definition exposeEvent ::
  "(string list \<Rightarrow> string list) \<Rightarrow> bool \<Rightarrow> bool \<Rightarrow> 'g renderwindow \<Rightarrow> 'g renderwindow option" where
  "exposeEvent arrange ok exposed s =
     (case (if \<not> mInitialized s then init arrange ok s else Some s) of
        None \<Rightarrow> None
      | Some s1 \<Rightarrow>
          if \<not> glFunctions s1 then None
          else
            (let s2 = emit [GlViewport] s1
             in Some (if exposed then emit [TimerStart16, ClockStart] s2 else s2)))"

subsection \<open>keyPressEvent\<close>

datatype key = Key_Escape | Key_W | Key_S | Key_A | Key_D | Key_Q | Key_E | Key_I | Key_other

text \<open>
  \<open>rand()\<close> is a parameter \<open>rand\<close>: from the state of the C library's generator it gives
  the number returned (not negative, by the C standard) and the next state. The two calls
  in \<open>QVector3D RainSpawn(-10 + rand() % 20, 5, -10 + rand() % 20)\<close> are arguments of one
  constructor call, so C++ leaves open which is evaluated first: the parameter \<open>arg_order\<close>.
  In \<open>RainSpawn ord a b\<close>, \<open>a\<close> is the number of the first call and \<open>b\<close> of the second.
\<close>

datatype arg_order = X_first | Z_first

definition RainSpawn :: "arg_order \<Rightarrow> nat \<Rightarrow> nat \<Rightarrow> vec3" where
  "RainSpawn ord a b =
     (let (rx, rz) = (if ord = X_first then (a, b) else (b, a))
      in (- 10 + int (rx mod 20), 5, - 10 + int (rz mod 20)))"

definition spawn_one ::
  "('g \<Rightarrow> nat \<times> 'g) \<Rightarrow> arg_order \<Rightarrow> int \<Rightarrow> 'g renderwindow \<Rightarrow> 'g renderwindow" where
  "spawn_one rand ord i s =
     (let (a, g1) = rand (prng s);
          (b, g2) = rand g1;
          pos = RainSpawn ord a b;
          (p, sh) = reg_index ''PlainShader'' (mShaders s);
          c = RollingBall ball_obj p;
          ref = RainDrop (length (mRainDrops s));
          rainBall = send OEnablePhysics (send (OSetPosition pos) (send OInit (new_object c)))
      in emit [NewObject c, ObjCall ref OInit, ObjCall ref (OSetPosition pos),
               ObjCall ref OEnablePhysics, QDebug i pos]
           (s\<lparr>prng := g2, mShaders := sh, mRainDrops := mRainDrops s @ [rainBall]\<rparr>))"

text \<open>\<open>for (int i = 0; i < mRainAmount; i++)\<close>, with \<open>n\<close> the value of \<open>mRainAmount\<close>.\<close>

function spawn_loop ::
  "('g \<Rightarrow> nat \<times> 'g) \<Rightarrow> arg_order \<Rightarrow> int \<Rightarrow> int \<Rightarrow> 'g renderwindow \<Rightarrow> 'g renderwindow" where
  "spawn_loop rand ord n i s =
     (if i < n then spawn_loop rand ord n (i + 1) (spawn_one rand ord i s) else s)"
  by pat_completeness auto
termination
  by (relation "measure (\<lambda>(rand, ord, n, i, s). nat (n - i))") auto

text \<open>
  The result is \<open>None\<close> when Escape is pressed and \<open>mMainWindow\<close> is null (it is
  dereferenced without a test). The tests on the key follow each other without
  \<open>else\<close>, as in the source; every \<open>setX\<close>, \<open>setY\<close>, \<open>setZ\<close> stores a float.
\<close>

definition keyPressEvent ::
  "('g \<Rightarrow> nat \<times> 'g) \<Rightarrow> arg_order \<Rightarrow> key \<Rightarrow> 'g renderwindow \<Rightarrow> 'g renderwindow option" where
  "keyPressEvent rand ord k s =
     (if k = Key_Escape \<and> \<not> mMainWindow s then None
      else
        (let s0 = (if k = Key_Escape then emit [MainWindowClose] s else s);
             MovePos = CamPos s0;
             s1 = (if k = Key_W then s0\<lparr>CamPos := setZ (f32 (vz MovePos + 1)) (CamPos s0)\<rparr> else s0);
             s2 = (if k = Key_S then s1\<lparr>CamPos := setZ (f32 (vz MovePos - 1)) (CamPos s1)\<rparr> else s1);
             s3 = (if k = Key_A then s2\<lparr>CamPos := setX (f32 (vx MovePos - 1)) (CamPos s2)\<rparr> else s2);
             s4 = (if k = Key_D then s3\<lparr>CamPos := setX (f32 (vx MovePos + 1)) (CamPos s3)\<rparr> else s3);
             s5 = (if k = Key_Q then s4\<lparr>CamPos := setY (f32 (vy MovePos - 1)) (CamPos s4)\<rparr> else s4);
             s6 = (if k = Key_E then s5\<lparr>CamPos := setY (f32 (vy MovePos + 1)) (CamPos s5)\<rparr> else s5)
         in Some
              (if k = Key_I then
                 (if ActivateRain s6 then s6\<lparr>ActivateRain := False, mRainDrops := []\<rparr>
                  else (spawn_loop rand ord (mRainAmount s6) 0 s6)\<lparr>ActivateRain := True\<rparr>)
               else s6)))"

subsection \<open>Runs and start states\<close>

text \<open>
  The state after the constructor. \<open>mainWindow\<close> says whether the pointer handed in is
  not null; \<open>campos\<close>, \<open>rain\<close> and \<open>amount\<close> are the initial values that renderwindow.h
  gives \<open>CamPos\<close>, \<open>ActivateRain\<close> and \<open>mRainAmount\<close>; \<open>g\<close> is the state of the
  C library's generator.
\<close>

definition RenderWindow :: "bool \<Rightarrow> vec3 \<Rightarrow> bool \<Rightarrow> int \<Rightarrow> 'g \<Rightarrow> 'g renderwindow" where
  "RenderWindow mainWindow campos rain amount g =
     \<lparr>mInitialized = False, glFunctions = False, mMainWindow = mainWindow, mCamera = False,
      mShaders = [], mMap = [], CamPos = campos, ActivateRain = rain,
      mRainAmount = amount, mRainDrops = [], frameCount = 0, prng = g, trace = []\<rparr>"

text \<open>
  The generator that the C standard prints as an example of \<open>rand\<close> (7.22.2), with its
  state \<open>next\<close> kept to 32 bits; the state before any call is 1.
\<close>

definition c_rand :: "int \<Rightarrow> nat \<times> int" where
  "c_rand next = (let n = (next * 1103515245 + 12345) mod 4294967296
                  in (nat ((n div 65536) mod 32768), n))"

text \<open>\<open>calculateFramerate\<close> called once for each of the elapsed times given.\<close>

fun frames :: "int \<Rightarrow> int list \<Rightarrow> 'g renderwindow \<Rightarrow> 'g renderwindow" where
  "frames period [] s = s"
| "frames period (t # ts) s = frames period ts (calculateFramerate_every period t s)"

text \<open>
  What the program is built and run on: the order in which each of the two containers is
  run through, the C library's \<open>rand\<close>, and the compiler's choice for \<open>RainSpawn\<close>.
\<close>

record 'g platform =
  shaders_order :: "string list \<Rightarrow> string list"
  objects_order :: "string list \<Rightarrow> string list"
  lib_rand :: "'g \<Rightarrow> nat \<times> 'g"
  spawn_args :: arg_order

text \<open>
  The events Qt delivers to the window: an expose notification (with what \<open>makeCurrent\<close>
  would return and with \<open>isExposed()\<close>), a timeout of the render timer (with what the
  collaborators hand back during the frame), a key press.
\<close>

datatype event = Expose bool bool | Tick frame_input | KeyPress key

definition step :: "int \<Rightarrow> 'g platform \<Rightarrow> event \<Rightarrow> 'g renderwindow \<Rightarrow> 'g renderwindow option" where
  "step period pf ev s =
     (case ev of
        Expose ok exposed \<Rightarrow> exposeEvent (objects_order pf) ok exposed s
      | Tick inp \<Rightarrow> render_every period (shaders_order pf) (objects_order pf) inp s
      | KeyPress k \<Rightarrow> keyPressEvent (lib_rand pf) (spawn_args pf) k s)"

fun run :: "int \<Rightarrow> 'g platform \<Rightarrow> event list \<Rightarrow> 'g renderwindow \<Rightarrow> 'g renderwindow option" where
  "run period pf [] s = Some s"
| "run period pf (ev # evs) s =
     (case step period pf ev s of None \<Rightarrow> None | Some s' \<Rightarrow> run period pf evs s')"

subsection \<open>What is observed of a run\<close>

text \<open>The calls appended to the trace between two states.\<close>

definition new_calls :: "'g renderwindow \<Rightarrow> 'g renderwindow \<Rightarrow> call list" where
  "new_calls s s' = drop (length (trace s)) (trace s')"

text \<open>The keys of the registered objects that received the call \<open>c\<close>, in the order of the calls.\<close>

fun visited_by :: "objcall \<Rightarrow> call list \<Rightarrow> string list" where
  "visited_by c [] = []"
| "visited_by c (ObjCall (Registered k) c' # tr) =
     (if c' = c then k # visited_by c tr else visited_by c tr)"
| "visited_by c (x # tr) = visited_by c tr"

text \<open>How often \<open>init\<close> was entered: its first statement with an effect is the \<open>connect\<close>.\<close>

definition init_entries :: "call list \<Rightarrow> nat" where
  "init_entries tr = length (filter (\<lambda>c. c = Connect_timeout_render) tr)"

text \<open>The positions a drop was given by \<open>SetPosition\<close>.\<close>

fun positions_set :: "objcall list \<Rightarrow> vec3 list" where
  "positions_set [] = []"
| "positions_set (OSetPosition p # cs) = p # positions_set cs"
| "positions_set (c # cs) = positions_set cs"

definition rain_positions :: "'g renderwindow \<Rightarrow> vec3 list" where
  "rain_positions s = concat (map (\<lambda>d. positions_set (received d)) (mRainDrops s))"

text \<open>
  The positions that \<open>k\<close> rounds of the spawn loop compute, as a function of the
  generator alone.
\<close>

fun spawned_positions :: "('g \<Rightarrow> nat \<times> 'g) \<Rightarrow> arg_order \<Rightarrow> nat \<Rightarrow> 'g \<Rightarrow> vec3 list" where
  "spawned_positions rand ord 0 g = []"
| "spawned_positions rand ord (Suc k) g =
     (let (a, g1) = rand g; (b, g2) = rand g1
      in RainSpawn ord a b # spawned_positions rand ord k g2)"

definition rain_ball :: "shader option \<Rightarrow> vec3 \<Rightarrow> visualobject" where
  "rain_ball p pos =
     \<lparr>constructed = RollingBall ball_obj p, received = [OInit, OSetPosition pos, OEnablePhysics]\<rparr>"

definition is_message :: "call \<Rightarrow> bool" where
  "is_message c = (case c of ShowMessage t \<Rightarrow> True | _ \<Rightarrow> False)"

definition messages :: "'g renderwindow \<Rightarrow> call list" where
  "messages s = filter is_message (trace s)"

text \<open>A state with the frame counter and the status messages blanked out.\<close>

definition unobserved :: "'g renderwindow \<Rightarrow> 'g renderwindow" where
  "unobserved s = s\<lparr>frameCount := 0, trace := filter (\<lambda>c. \<not> is_message c) (trace s)\<rparr>"

text \<open>The calls of the loop over \<open>mRainDrops\<close> in \<open>render\<close>, as seen from the state before it.\<close>

definition rain_trace :: "'g renderwindow \<Rightarrow> call list" where
  "rain_trace s = (if ActivateRain s
     then concat (map (\<lambda>i. map (ObjCall (RainDrop i)) rain_calls) [0 ..< length (mRainDrops s)])
     else [])"

text \<open>
  \<open>non_null r k\<close>: the registry holds a pointer under \<open>k\<close> that is not null. A window is
  \<open>ready\<close> for \<open>render\<close> when nothing that a frame dereferences is null: the camera,
  \<open>mMap["Ball"]\<close>, and every entry the two loops reach.
\<close>

definition non_null :: "'p registry \<Rightarrow> string \<Rightarrow> bool" where
  "non_null r k = (case map_of r k of Some (Some x) \<Rightarrow> True | _ \<Rightarrow> False)"

definition ready ::
  "(string list \<Rightarrow> string list) \<Rightarrow> (string list \<Rightarrow> string list) \<Rightarrow> 'g renderwindow \<Rightarrow> bool" where
  "ready arrS arrM s =
     (mCamera s \<and> non_null (mMap s) ''Ball'' \<and>
      list_all (non_null (mShaders s)) (reg_keys arrS (mShaders s)) \<and>
      list_all (non_null (mMap s)) (reg_keys arrM (mMap s)))"

definition is_log :: "call \<Rightarrow> bool" where
  "is_log c = (case c of LogText t l \<Rightarrow> True | _ \<Rightarrow> False)"

text \<open>The calls of a frame before the loop over the shaders, and the calls of a loop over \<open>mMap\<close>.\<close>

definition frame_head :: "frame_input \<Rightarrow> vec3 \<Rightarrow> call list" where
  "frame_head inp campos =
     [ClockRestart, MakeCurrent, InitializeOpenGLFunctions, GlClear, CameraInit,
      CameraPerspective (win_width inp) (win_height inp),
      ObjCall (Registered ''Ball'') OGetPosition,
      CameraLookAt campos (vadd (ball_position inp) (0, 0, 0)) (0, 1, 0)]"

definition objects_trace :: "objcall list \<Rightarrow> string list \<Rightarrow> call list" where
  "objects_trace cs ks = concat (map (\<lambda>k. map (ObjCall (Registered k)) cs) ks)"

text \<open>What \<open>init\<close> builds in a window whose registries are empty.\<close>

definition plain :: shader where
  "plain = Shader ''../VSIM_Oblig_3/plainshader.vert'' ''../VSIM_Oblig_3/plainshader.frag''"

definition shaders4 :: "shader registry" where
  "shaders4 = map (\<lambda>(k, sh). (k, Some sh)) the_shaders"

definition surface0 :: visualobject where
  "surface0 = \<lparr>constructed = SurfaceMesh (Some plain), received = []\<rparr>"

definition ball0 :: visualobject where
  "ball0 = \<lparr>constructed = RollingBall ball_obj (Some plain),
             received = [OSetSurface (Some ''Surface'')]\<rparr>"

subsection \<open>A window and a platform to run on\<close>

text \<open>
  A window to run the functions on: a main window, the camera at \<open>(0, 7, 3)\<close>, no rain, two
  drops to spawn, the generator in its state before any call. \<open>started arr\<close> is that
  window after its first expose notification, with a context that could be made current.
\<close>

definition example_window :: "int renderwindow" where
  "example_window = RenderWindow True (0, 7, 3) False 2 1"

definition started :: "(string list \<Rightarrow> string list) \<Rightarrow> int renderwindow" where
  "started arr =
     (case exposeEvent arr True True example_window of Some s \<Rightarrow> s | None \<Rightarrow> example_window)"

definition example_frame :: frame_input where
  "example_frame =
     \<lparr>makeCurrent_ok = False, nsecsElapsed = 16000000, win_width = 800, win_height = 600,
      ball_position = (0, 0, 0), camera_position = (1, 2, 3)\<rparr>"

definition light :: shader where
  "light = Shader ''../VSIM_Oblig_3/lightshader.vert'' ''../VSIM_Oblig_3/lightshader.frag''"

definition example_platform :: "int platform" where
  "example_platform =
     \<lparr>shaders_order = key_order, objects_order = key_order, lib_rand = c_rand, spawn_args = X_first\<rparr>"


subsection \<open>The movement keys in the words of the specification\<close>

text \<open>
  The words of the specification for the movement keys: W and S step along Z, A and D
  along X, Q and E along Y, by one unit; \<open>steps\<close> is the sum of the steps of a sequence.
\<close>

fun key_step :: "key \<Rightarrow> vec3" where
  "key_step Key_W = (0, 0, 1)"
| "key_step Key_S = (0, 0, - 1)"
| "key_step Key_A = (- 1, 0, 0)"
| "key_step Key_D = (1, 0, 0)"
| "key_step Key_Q = (0, - 1, 0)"
| "key_step Key_E = (0, 1, 0)"
| "key_step k = (0, 0, 0)"

definition steps :: "key list \<Rightarrow> vec3" where
  "steps ks = (sum_list (map (\<lambda>k. vx (key_step k)) ks),
               sum_list (map (\<lambda>k. vy (key_step k)) ks),
               sum_list (map (\<lambda>k. vz (key_step k)) ks))"

definition movement :: "key \<Rightarrow> bool" where
  "movement k = (k \<in> {Key_W, Key_S, Key_A, Key_D, Key_Q, Key_E})"

text \<open>
  Every component of magnitude at most \<open>b\<close>; up to \<open>b = 2^24\<close> the 32-bit floats hold every
  integer of that magnitude.
\<close>

definition within :: "int \<Rightarrow> vec3 \<Rightarrow> bool" where
  "within b v = (\<bar>vx v\<bar> \<le> b \<and> \<bar>vy v\<bar> \<le> b \<and> \<bar>vz v\<bar> \<le> b)"

text \<open>
  A window is \<open>running\<close> on a platform when it is initialised, has its OpenGL functions
  resolved, has its main window, is ready to draw, and holds an entry for the shader that the rain drops are built with.
\<close>

definition running :: "'g platform \<Rightarrow> 'g renderwindow \<Rightarrow> bool" where
  "running pf s =
     (mInitialized s \<and> glFunctions s \<and> mMainWindow s \<and>
      ready (shaders_order pf) (objects_order pf) s \<and>
      ''PlainShader'' \<in> set (map fst (mShaders s)))"

section \<open>Properties\<close>

subsection \<open>The frame counter\<close>

lemma calculateFramerate_every_cases:
  assumes "mMainWindow s"
  shows "frameCount s + 1 > p \<Longrightarrow>
           calculateFramerate_every p t s = s\<lparr>frameCount := 0, trace := trace s @ [ShowMessage t]\<rparr>"
    and "\<not> frameCount s + 1 > p \<Longrightarrow>
           calculateFramerate_every p t s = s\<lparr>frameCount := frameCount s + 1\<rparr>"
  using assms by (simp_all add: calculateFramerate_every_def emit_def Let_def)

lemma frames_messages:
  assumes "mMainWindow s" "0 \<le> frameCount s" "frameCount s \<le> p"
  shows "length (messages (frames p ts s)) =
           length (messages s) + (nat (frameCount s) + length ts) div (nat p + 1)"
  using assms
proof (induction ts arbitrary: s)
  case Nil
  then show ?case by simp
next
  case (Cons t ts)
  show ?case
  proof (cases "frameCount s + 1 > p")
    case True
    let ?s1 = "s\<lparr>frameCount := 0, trace := trace s @ [ShowMessage t]\<rparr>"
    have eq: "calculateFramerate_every p t s = ?s1"
      using Cons.prems(1) True by (rule calculateFramerate_every_cases(1))
    have fc: "nat (frameCount s) = nat p" using True Cons.prems by simp
    have "length (messages (frames p ts ?s1)) =
            length (messages ?s1) + (nat (frameCount ?s1) + length ts) div (nat p + 1)"
      using Cons.prems by (intro Cons.IH) simp_all
    moreover have "length (messages ?s1) = length (messages s) + 1"
      by (simp add: messages_def is_message_def)
    moreover have "(nat p + Suc (length ts)) div (nat p + 1) = 1 + length ts div (nat p + 1)"
      by (metis add.commute add_Suc_right div_add_self1 Suc_eq_plus1 Zero_not_Suc plus_1_eq_Suc)
    ultimately show ?thesis by (simp add: eq fc)
  next
    case False
    let ?s1 = "s\<lparr>frameCount := frameCount s + 1\<rparr>"
    have eq: "calculateFramerate_every p t s = ?s1"
      using Cons.prems(1) False by (rule calculateFramerate_every_cases(2))
    have "length (messages (frames p ts ?s1)) =
            length (messages ?s1) + (nat (frameCount ?s1) + length ts) div (nat p + 1)"
      using Cons.prems False by (intro Cons.IH) simp_all
    moreover have "messages ?s1 = messages s" by (simp add: messages_def)
    moreover have "nat (frameCount s + 1) = Suc (nat (frameCount s))"
      using Cons.prems by simp
    ultimately show ?thesis by (simp add: eq)
  qed
qed

text \<open>
  Claim C6. The counter is incremented first and compared with \<open>> 30\<close> afterwards, so it
  has to reach 31 before a message is shown: over any number of frames, starting with the
  counter at 0 and a main window, \<open>calculateFramerate\<close> shows one message for every 31
  frames, not one for every 30 as the claim and the comment in the source say.
\<close>

theorem calculateFramerate_message_every_31:
  assumes "mMainWindow s" "frameCount s = 0"
  shows "length (messages (frames 30 ts s)) = length (messages s) + length ts div 31"
  using frames_messages [of s 30 ts] assms by simp

theorem calculateFramerate_message_every_31_witness:
  "length (messages (frames 30 (replicate 30 16000000) (RenderWindow True (0, 0, 0) False 0 (1::int)))) = 0 \<and>
   length (messages (frames 30 (replicate 31 16000000) (RenderWindow True (0, 0, 0) False 0 (1::int)))) = 1"
  using calculateFramerate_message_every_31
          [of "RenderWindow True (0, 0, 0) False 0 (1::int)" "replicate 30 16000000"]
        calculateFramerate_message_every_31
          [of "RenderWindow True (0, 0, 0) False 0 (1::int)" "replicate 31 16000000"]
  by (simp add: RenderWindow_def messages_def)

subsection \<open>The calls of a frame\<close>


lemma emit_simps [simp]:
  "trace (emit cs s) = trace s @ cs"
  "mInitialized (emit cs s) = mInitialized s"
  "mMainWindow (emit cs s) = mMainWindow s"
  "mCamera (emit cs s) = mCamera s"
  "mShaders (emit cs s) = mShaders s"
  "mMap (emit cs s) = mMap s"
  "CamPos (emit cs s) = CamPos s"
  "ActivateRain (emit cs s) = ActivateRain s"
  "mRainAmount (emit cs s) = mRainAmount s"
  "mRainDrops (emit cs s) = mRainDrops s"
  "frameCount (emit cs s) = frameCount s"
  "prng (emit cs s) = prng s"
  by (simp_all add: emit_def)

lemma emit_glFunctions [simp]: "glFunctions (emit cs s) = glFunctions s"
  by (simp add: emit_def)

lemma reg_update_keys [simp]: "map fst (reg_update k p r) = map fst r"
  by (induction r) (auto simp: reg_update_def)

lemma reg_index_present:
  "map_of r k = Some p \<Longrightarrow> reg_index k r = (p, r)"
  by (simp add: reg_index_def)

lemma reg_index_Some:
  "reg_index k r = (Some ob, m) \<Longrightarrow> m = r \<and> map_of r k = Some (Some ob)"
  by (auto simp: reg_index_def split: option.splits)

lemma visit_all_trace:
  "visit_all cs ks (r, tr) = Some (r', tr') \<Longrightarrow>
     tr' = tr @ objects_trace cs ks \<and> map fst r' = map fst r"
proof (induction ks arbitrary: r tr)
  case Nil
  then show ?case by (simp add: objects_trace_def)
next
  case (Cons k ks)
  from Cons.prems obtain ob where ob: "map_of r k = Some (Some ob)"
    and rest: "visit_all cs ks (reg_update k (send_all cs ob) r, tr @ map (ObjCall (Registered k)) cs)
                 = Some (r', tr')"
    by (auto split: option.splits)
  from Cons.IH [OF rest] show ?case by (simp add: objects_trace_def)
qed

lemma visited_by_append: "visited_by c (a @ b) = visited_by c a @ visited_by c b"
  by (induction c a rule: visited_by.induct) simp_all

lemma visited_by_visits:
  "visited_by c (objects_trace cs ks) = concat (map (\<lambda>k. replicate (count_list cs c) k) ks)"
proof (induction ks)
  case Nil
  then show ?case by (simp add: objects_trace_def)
next
  case (Cons k ks)
  have "visited_by c (map (ObjCall (Registered k)) cs) = replicate (count_list cs c) k"
    by (induction cs) auto
  with Cons show ?case by (simp add: visited_by_append objects_trace_def)
qed

lemma shader_calls_not_obj: "visited_by c (shader_calls pos k sh) = []"
  by (simp add: shader_calls_def)

lemma shader_loop_not_obj: "shader_loop pos r ks = Some tr \<Longrightarrow> visited_by c tr = []"
  by (induction ks arbitrary: tr)
     (auto split: option.splits simp: visited_by_append shader_calls_not_obj)

lemma shader_loop_covers:
  "shader_loop pos r ks = Some tr \<Longrightarrow> k \<in> set ks \<Longrightarrow>
     \<exists>sh a b. map_of r k = Some (Some sh) \<and> tr = a @ shader_calls pos k sh @ b"
proof (induction ks arbitrary: tr)
  case Nil
  then show ?case by simp
next
  case (Cons k' ks)
  from Cons.prems(1) obtain sh' tr' where sh': "map_of r k' = Some (Some sh')"
    and rest: "shader_loop pos r ks = Some tr'" and tr: "tr = shader_calls pos k' sh' @ tr'"
    by (auto split: option.splits)
  show ?case
  proof (cases "k = k'")
    case True
    with sh' tr have "map_of r k = Some (Some sh') \<and> tr = [] @ shader_calls pos k sh' @ tr'"
      by simp
    then show ?thesis by blast
  next
    case False
    with Cons.prems(2) have "k \<in> set ks" by simp
    from Cons.IH [OF rest this] obtain sh a b
      where "map_of r k = Some (Some sh)" "tr' = a @ shader_calls pos k sh @ b" by blast
    with tr have "map_of r k = Some (Some sh) \<and> tr = (shader_calls pos k' sh' @ a) @ shader_calls pos k sh @ b"
      by simp
    then show ?thesis by blast
  qed
qed

lemma draw_frame_Some:
  assumes "draw_frame arrS arrM inp s = Some s'"
  shows "\<exists>ob tr r otr.
     mCamera s \<and> map_of (mMap s) ''Ball'' = Some (Some ob) \<and>
     shader_loop (camera_position inp) (mShaders s) (reg_keys arrS (mShaders s)) = Some tr \<and>
     visit_all [OUpdateTransform, ODraw] (arrM (map fst (mMap s)))
       (reg_update ''Ball'' (send OGetPosition ob) (mMap s), []) = Some (r, otr) \<and>
     mMap s' = r \<and>
     trace s' = trace s @ frame_head inp (CamPos s) @
       tr @ rain_trace s @ otr @ [SwapBuffers]"
  using assms
  by (auto simp: draw_frame_def Let_def for_each_object_def rain_loop_def rain_trace_def reg_keys_def
                 frame_head_def
           split: if_splits option.splits prod.splits dest!: reg_index_Some)

lemma non_null_iff: "non_null r k \<longleftrightarrow> (\<exists>x. map_of r k = Some (Some x))"
  by (auto simp: non_null_def split: option.splits)

lemma map_of_reg_update:
  "map_of (reg_update k p r) k' =
     (if k' = k then (case map_of r k of None \<Rightarrow> None | Some v \<Rightarrow> Some (Some p)) else map_of r k')"
  by (induction r) (auto simp: reg_update_def split: option.splits)

lemma non_null_reg_update: "non_null r k' \<Longrightarrow> non_null (reg_update k p r) k'"
  by (auto simp: non_null_iff map_of_reg_update)

lemma shader_loop_total:
  "list_all (non_null r) ks \<Longrightarrow> \<exists>tr. shader_loop pos r ks = Some tr"
  by (induction ks) (auto simp: non_null_iff)

lemma visit_all_total:
  "list_all (non_null r) ks \<Longrightarrow> \<exists>r' tr'. visit_all cs ks (r, tr) = Some (r', tr')"
proof (induction ks arbitrary: r tr)
  case Nil
  then show ?case by simp
next
  case (Cons k ks)
  from Cons.prems obtain ob where ob: "map_of r k = Some (Some ob)" 
    by (auto simp: non_null_iff)
  have "list_all (non_null (reg_update k (send_all cs ob) r)) ks"
    using Cons.prems by (auto simp: list_all_iff intro: non_null_reg_update)
  from Cons.IH [OF this] show ?case using ob by simp
qed

lemma draw_frame_total:
  assumes "ready arrS arrM s"
  shows "\<exists>s'. draw_frame arrS arrM inp s = Some s'"
proof -
  from assms obtain ob where ob: "map_of (mMap s) ''Ball'' = Some (Some ob)" and cam: "mCamera s"
    by (auto simp: ready_def non_null_iff)
  from assms obtain tr where tr: "shader_loop (camera_position inp) (mShaders s) (reg_keys arrS (mShaders s)) = Some tr"
    using shader_loop_total [of "mShaders s" "reg_keys arrS (mShaders s)" "camera_position inp"]
    by (auto simp: ready_def)
  let ?m = "reg_update ''Ball'' (send OGetPosition ob) (mMap s)"
  have "list_all (non_null ?m) (arrM (map fst (mMap s)))"
    using assms by (auto simp: ready_def reg_keys_def list_all_iff intro: non_null_reg_update)
  from visit_all_total [OF this, of "[OUpdateTransform, ODraw]" "[]"]
  obtain r otr where v: "visit_all [OUpdateTransform, ODraw] (arrM (map fst (mMap s))) (?m, []) = Some (r, otr)"
    by blast
  show ?thesis
    using ob cam tr v
    by (simp add: draw_frame_def Let_def reg_index_present for_each_object_def reg_keys_def rain_loop_def)
qed

lemma ready_calculateFramerate:
  "ready arrS arrM (calculateFramerate_every p t s) = ready arrS arrM s"
  by (simp add: ready_def calculateFramerate_every_def Let_def)

lemma calculateFramerate_every_fields [simp]:
  "mInitialized (calculateFramerate_every p t s) = mInitialized s"
  "mMainWindow (calculateFramerate_every p t s) = mMainWindow s"
  "mCamera (calculateFramerate_every p t s) = mCamera s"
  "mShaders (calculateFramerate_every p t s) = mShaders s"
  "mMap (calculateFramerate_every p t s) = mMap s"
  "CamPos (calculateFramerate_every p t s) = CamPos s"
  "ActivateRain (calculateFramerate_every p t s) = ActivateRain s"
  "mRainAmount (calculateFramerate_every p t s) = mRainAmount s"
  "mRainDrops (calculateFramerate_every p t s) = mRainDrops s"
  "prng (calculateFramerate_every p t s) = prng s"
  by (simp_all add: calculateFramerate_every_def Let_def)

lemma calculateFramerate_every_glFunctions [simp]:
  "glFunctions (calculateFramerate_every p t s) = glFunctions s"
  by (simp add: calculateFramerate_every_def Let_def)

lemma calculateFramerate_every_trace:
  "\<exists>ms. trace (calculateFramerate_every p t s) = trace s @ ms \<and> (ms = [] \<or> ms = [ShowMessage t])"
  by (simp add: calculateFramerate_every_def Let_def)

lemma rain_trace_calculateFramerate [simp]:
  "rain_trace (calculateFramerate_every p t s) = rain_trace s"
  by (simp add: rain_trace_def)

text \<open>The calls of one frame.\<close>

lemma render_every_calls:
  assumes "ready arrS arrM s"
  shows "\<exists>s' ms tr r otr.
     render_every p arrS arrM inp s = Some s' \<and> (ms = [] \<or> ms = [ShowMessage (nsecsElapsed inp)]) \<and>
     shader_loop (camera_position inp) (mShaders s) (reg_keys arrS (mShaders s)) = Some tr \<and>
     otr = objects_trace [OUpdateTransform, ODraw] (reg_keys arrM (mMap s)) \<and>
     map fst (mMap s') = map fst (mMap s) \<and>
     new_calls s s' = ms @ frame_head inp (CamPos s) @
       tr @ rain_trace s @ otr @ [SwapBuffers]"
proof -
  let ?s1 = "calculateFramerate_every p (nsecsElapsed inp) s"
  have "ready arrS arrM ?s1" using assms by (simp add: ready_calculateFramerate)
  from draw_frame_total [OF this] obtain s' where s': "draw_frame arrS arrM inp ?s1 = Some s'"
    by blast
  from draw_frame_Some [OF s'] obtain ob tr r otr where
    tr: "shader_loop (camera_position inp) (mShaders s) (reg_keys arrS (mShaders s)) = Some tr"
    and v: "visit_all [OUpdateTransform, ODraw] (arrM (map fst (mMap s)))
              (reg_update ''Ball'' (send OGetPosition ob) (mMap s), []) = Some (r, otr)"
    and m: "mMap s' = r"
    and t: "trace s' = trace ?s1 @ frame_head inp (CamPos s) @
       tr @ rain_trace s @ otr @ [SwapBuffers]"
    by auto
  obtain ms where ms: "trace ?s1 = trace s @ ms" "ms = [] \<or> ms = [ShowMessage (nsecsElapsed inp)]"
    using calculateFramerate_every_trace by blast
  from visit_all_trace [OF v] have otr: "otr = objects_trace [OUpdateTransform, ODraw] (reg_keys arrM (mMap s))" and keys: "map fst r = map fst (mMap s)"
    by (simp_all add: reg_keys_def)
  show ?thesis
    using s' ms tr otr keys t m by (simp add: render_every_def new_calls_def)
qed

lemma draw_frame_fields:
  assumes "draw_frame arrS arrM inp s = Some s'"
  shows "mInitialized s' = mInitialized s" "mMainWindow s' = mMainWindow s" "mCamera s' = mCamera s"
    "mShaders s' = mShaders s" "CamPos s' = CamPos s" "ActivateRain s' = ActivateRain s"
    "mRainAmount s' = mRainAmount s" "length (mRainDrops s') = length (mRainDrops s)"
    "frameCount s' = frameCount s" "prng s' = prng s"
  using assms
  by (auto simp: draw_frame_def Let_def for_each_object_def rain_loop_def
           split: if_splits option.splits prod.splits)

lemma draw_frame_glFunctions:
  assumes "draw_frame arrS arrM inp s = Some s'"
  shows "glFunctions s'"
  using assms
  by (auto simp: draw_frame_def Let_def for_each_object_def rain_loop_def
           split: if_splits option.splits prod.splits)

lemma in_keys_of_map_of: "map_of r k = Some v \<Longrightarrow> k \<in> set (map fst r)"
  by (metis map_of_eq_None_iff option.distinct(1) set_map)

lemma render_broadcast_segment:
  assumes "ready arrS arrM s"
    and "set (reg_keys arrS (mShaders s)) = set (map fst (mShaders s))"
    and "map_of (mShaders s) k = Some (Some sh)"
  shows "\<exists>s' a b. render arrS arrM inp s = Some s' \<and>
     new_calls s s' = a @ shader_calls (camera_position inp) k sh @ b"
proof -
  from render_every_calls [OF assms(1), of 30 inp]
  obtain s' ms tr otr where r: "render arrS arrM inp s = Some s'"
    and tr: "shader_loop (camera_position inp) (mShaders s) (reg_keys arrS (mShaders s)) = Some tr"
    and n: "new_calls s s' = ms @ frame_head inp (CamPos s) @ tr @ rain_trace s @ otr @ [SwapBuffers]"
    unfolding render_def by auto
  have "k \<in> set (map fst (mShaders s))"
    using assms(3) by (rule in_keys_of_map_of)
  then have "k \<in> set (reg_keys arrS (mShaders s))"
    using assms(2) by simp
  from shader_loop_covers [OF tr this] assms(3)
  obtain a b where ab: "tr = a @ shader_calls (camera_position inp) k sh @ b" by auto
  have "new_calls s s' = (ms @ frame_head inp (CamPos s) @ a) @
        shader_calls (camera_position inp) k sh @ (b @ rain_trace s @ otr @ [SwapBuffers])"
    unfolding n ab by simp
  with r show ?thesis by (intro exI conjI)
qed

subsection \<open>The state after init\<close>

lemma insert_shader_fields [simp]:
  "mShaders (insert_shader e s) = reg_insert (fst e) (Some (snd e)) (mShaders s)"
  "trace (insert_shader e s) = trace s @ [NewShader (snd e)]"
  "mInitialized (insert_shader e s) = mInitialized s"
  "mMainWindow (insert_shader e s) = mMainWindow s"
  "mCamera (insert_shader e s) = mCamera s"
  "mMap (insert_shader e s) = mMap s"
  "CamPos (insert_shader e s) = CamPos s"
  "ActivateRain (insert_shader e s) = ActivateRain s"
  "mRainAmount (insert_shader e s) = mRainAmount s"
  "mRainDrops (insert_shader e s) = mRainDrops s"
  "frameCount (insert_shader e s) = frameCount s"
  "prng (insert_shader e s) = prng s"
  by (simp_all add: insert_shader_def)

lemma insert_shader_glFunctions [simp]: "glFunctions (insert_shader e s) = glFunctions s"
  by (simp add: insert_shader_def)

lemma insert_object_fields [simp]:
  "mShaders (insert_object k mk s) = snd (reg_index ''PlainShader'' (mShaders s))"
  "mMap (insert_object k mk s) =
     reg_insert k (Some (new_object (mk (fst (reg_index ''PlainShader'' (mShaders s)))))) (mMap s)"
  "trace (insert_object k mk s) = trace s @ [NewObject (mk (fst (reg_index ''PlainShader'' (mShaders s))))]"
  "mInitialized (insert_object k mk s) = mInitialized s"
  "mMainWindow (insert_object k mk s) = mMainWindow s"
  "mCamera (insert_object k mk s) = mCamera s"
  "CamPos (insert_object k mk s) = CamPos s"
  "ActivateRain (insert_object k mk s) = ActivateRain s"
  "mRainAmount (insert_object k mk s) = mRainAmount s"
  "mRainDrops (insert_object k mk s) = mRainDrops s"
  "frameCount (insert_object k mk s) = frameCount s"
  "prng (insert_object k mk s) = prng s"
  by (simp_all add: insert_object_def split: prod.splits)

lemma insert_object_glFunctions [simp]: "glFunctions (insert_object k mk s) = glFunctions s"
  by (simp add: insert_object_def split: prod.splits)



lemma emit_Nil [simp]: "emit [] s = s"
  by (simp add: emit_def)

lemma wire_ball_shape:
  "\<exists>m cs. wire_ball s = emit cs (s\<lparr>mMap := m\<rparr>) \<and>
     (cs = [] \<or> (\<exists>x. cs = [ObjCall (Registered ''Ball'') (OSetSurface x)]))"
proof -
  obtain b m1 where 1: "reg_index ''Ball'' (mMap s) = (b, m1)" by force
  show ?thesis
  proof (cases b)
    case None
    with 1 have "wire_ball s = emit [] (s\<lparr>mMap := m1\<rparr>)" by (simp add: wire_ball_def)
    then show ?thesis by (intro exI [of _ m1] exI [of _ "[]"]) simp
  next
    case (Some ob)
    show ?thesis
    proof (cases "constructed ob")
      case (SurfaceMesh p)
      with 1 Some have "wire_ball s = emit [] (s\<lparr>mMap := m1\<rparr>)" by (simp add: wire_ball_def)
      then show ?thesis by (intro exI [of _ m1] exI [of _ "[]"]) simp
    next
      case (RollingBall f p)
      obtain sf m2 where 2: "reg_index ''Surface'' m1 = (sf, m2)" by force
      let ?c = "OSetSurface (case sf of None \<Rightarrow> None | Some x \<Rightarrow> Some ''Surface'')"
      from 1 2 Some RollingBall have "wire_ball s =
         emit [ObjCall (Registered ''Ball'') ?c] (s\<lparr>mMap := reg_update ''Ball'' (send ?c ob) m2\<rparr>)"
        by (simp add: wire_ball_def Let_def)
      then show ?thesis
        by (intro exI [of _ "reg_update ''Ball'' (send ?c ob) m2"]
                  exI [of _ "[ObjCall (Registered ''Ball'') ?c]"]) simp
    qed
  qed
qed

lemma wire_ball_fields [simp]:
  "mShaders (wire_ball s) = mShaders s"
  "mInitialized (wire_ball s) = mInitialized s"
  "mMainWindow (wire_ball s) = mMainWindow s"
  "mCamera (wire_ball s) = mCamera s"
  "CamPos (wire_ball s) = CamPos s"
  "ActivateRain (wire_ball s) = ActivateRain s"
  "mRainAmount (wire_ball s) = mRainAmount s"
  "mRainDrops (wire_ball s) = mRainDrops s"
  "frameCount (wire_ball s) = frameCount s"
  "prng (wire_ball s) = prng s"
proof -
  obtain m cs where "wire_ball s = emit cs (s\<lparr>mMap := m\<rparr>)" using wire_ball_shape [of s] by auto
  then show "mShaders (wire_ball s) = mShaders s"
  "mInitialized (wire_ball s) = mInitialized s"
  "mMainWindow (wire_ball s) = mMainWindow s"
  "mCamera (wire_ball s) = mCamera s"
  "CamPos (wire_ball s) = CamPos s"
  "ActivateRain (wire_ball s) = ActivateRain s"
  "mRainAmount (wire_ball s) = mRainAmount s"
  "mRainDrops (wire_ball s) = mRainDrops s"
  "frameCount (wire_ball s) = frameCount s"
  "prng (wire_ball s) = prng s" by simp_all
qed

lemma wire_ball_glFunctions [simp]: "glFunctions (wire_ball s) = glFunctions s"
proof -
  obtain m cs where "wire_ball s = emit cs (s\<lparr>mMap := m\<rparr>)" using wire_ball_shape [of s] by auto
  then show ?thesis by simp
qed


lemma foldl_insert_shader_fields [simp]:
  "mInitialized (foldl (\<lambda>s e. insert_shader e s) s es) = mInitialized s"
  "mMainWindow (foldl (\<lambda>s e. insert_shader e s) s es) = mMainWindow s"
  "mCamera (foldl (\<lambda>s e. insert_shader e s) s es) = mCamera s"
  "mMap (foldl (\<lambda>s e. insert_shader e s) s es) = mMap s"
  "CamPos (foldl (\<lambda>s e. insert_shader e s) s es) = CamPos s"
  "ActivateRain (foldl (\<lambda>s e. insert_shader e s) s es) = ActivateRain s"
  "mRainAmount (foldl (\<lambda>s e. insert_shader e s) s es) = mRainAmount s"
  "mRainDrops (foldl (\<lambda>s e. insert_shader e s) s es) = mRainDrops s"
  "frameCount (foldl (\<lambda>s e. insert_shader e s) s es) = frameCount s"
  "prng (foldl (\<lambda>s e. insert_shader e s) s es) = prng s"
  by (induction es arbitrary: s; simp)+

lemma foldl_insert_shader_glFunctions [simp]:
  "glFunctions (foldl (\<lambda>s e. insert_shader e s) s es) = glFunctions s"
  by (induction es arbitrary: s) simp_all



lemma init_setup_fields [simp]:
  "mInitialized (init_setup s)"
  "mCamera (init_setup s)"
  "mMainWindow (init_setup s) = mMainWindow s"
  "CamPos (init_setup s) = CamPos s"
  "ActivateRain (init_setup s) = ActivateRain s"
  "mRainAmount (init_setup s) = mRainAmount s"
  "mRainDrops (init_setup s) = mRainDrops s"
  "frameCount (init_setup s) = frameCount s"
  "prng (init_setup s) = prng s"
  by (simp_all add: init_setup_def Let_def)

lemma init_setup_glFunctions [simp]: "glFunctions (init_setup s)"
  by (simp add: init_setup_def Let_def)

lemma shaders_fresh:
  assumes "mShaders s = []"
  shows "mShaders (foldl (\<lambda>s e. insert_shader e s) s the_shaders) = shaders4"
  using assms by (simp add: the_shaders_def reg_insert_def shaders4_def)

lemma plain_index: "reg_index ''PlainShader'' shaders4 = (Some plain, shaders4)"
  by (simp add: the_shaders_def reg_index_def plain_def shaders4_def)

lemma wire_ball_wired:
  assumes "map_of (mMap s) ''Ball'' = Some (Some ob)" "constructed ob = RollingBall f p"
    "map_of (mMap s) ''Surface'' = Some (Some sf)"
  shows "wire_ball s = emit [ObjCall (Registered ''Ball'') (OSetSurface (Some ''Surface''))]
           (s\<lparr>mMap := reg_update ''Ball'' (send (OSetSurface (Some ''Surface'')) ob) (mMap s)\<rparr>)"
  using assms by (simp add: wire_ball_def reg_index_present Let_def)

lemma init_setup_fresh:
  assumes "mShaders s = []" "mMap s = []"
  shows "mShaders (init_setup s) = shaders4"
    and "mMap (init_setup s) = [(''Surface'', Some surface0), (''Ball'', Some ball0)]"
proof -
  let ?s2 = "(if \<not> mInitialized s then s\<lparr>mInitialized := True\<rparr> else s)"
  let ?s3 = "emit [InitializeOpenGLFunctions, LogText ''The active GPU and API:'' HIGHLIGHT,
                     LogGpuInfo, StartOpenGLDebugger, GlEnable_DEPTH_TEST, GlClearColor]
               (?s2\<lparr>glFunctions := True\<rparr>)"
  let ?s4 = "foldl (\<lambda>s e. insert_shader e s) ?s3 the_shaders"
  let ?s5 = "emit [NewCamera] (?s4\<lparr>mCamera := True\<rparr>)"
  let ?s6 = "insert_object ''Surface'' SurfaceMesh ?s5"
  let ?s7 = "insert_object ''Ball'' (RollingBall ball_obj) ?s6"
  have eq: "init_setup s = wire_ball ?s7" by (simp add: init_setup_def Let_def)
  have "mShaders ?s3 = []" using assms by simp
  then have sh4: "mShaders ?s4 = shaders4" by (rule shaders_fresh)
  have m4: "mMap ?s4 = []" using assms by simp
  have sh6: "mShaders ?s6 = shaders4" using sh4 by (simp add: plain_index)
  have m6: "mMap ?s6 = [(''Surface'', Some surface0)]"
    using sh4 m4 by (simp add: plain_index reg_insert_def new_object_def surface0_def)
  have sh7: "mShaders ?s7 = shaders4" using sh6 by (simp only: insert_object_fields plain_index snd_conv)
  have m7: "mMap ?s7 = [(''Surface'', Some surface0), 
      (''Ball'', Some (new_object (RollingBall ball_obj (Some plain))))]"
    using sh6 m6 by (simp only: insert_object_fields plain_index fst_conv) (simp add: reg_insert_def)
  have w: "wire_ball ?s7 = emit [ObjCall (Registered ''Ball'') (OSetSurface (Some ''Surface''))]
           (?s7\<lparr>mMap := reg_update ''Ball'' (send (OSetSurface (Some ''Surface'')) (new_object (RollingBall ball_obj (Some plain)))) (mMap ?s7)\<rparr>)"
    by (rule wire_ball_wired [where f = ball_obj and p = "Some plain" and sf = surface0])
       (simp_all only: m7, simp_all add: new_object_def)
  show "mShaders (init_setup s) = shaders4" using sh7 by (simp only: eq wire_ball_fields)
  show "mMap (init_setup s) = [(''Surface'', Some surface0), (''Ball'', Some ball0)]"
    unfolding eq w by (simp only: emit_simps m7) (simp add: reg_update_def ball0_def new_object_def send_def)
qed

lemma visit_all_non_null:
  "visit_all cs ks (r, tr) = Some (r', tr') \<Longrightarrow> non_null r' k = non_null r k"
proof (induction ks arbitrary: r tr)
  case Nil
  then show ?case by simp
next
  case (Cons k' ks)
  from Cons.prems obtain ob where ob: "map_of r k' = Some (Some ob)"
    and rest: "visit_all cs ks (reg_update k' (send_all cs ob) r, tr @ map (ObjCall (Registered k')) cs)
                 = Some (r', tr')"
    by (auto split: option.splits)
  have "non_null (reg_update k' (send_all cs ob) r) k = non_null r k"
    using ob by (auto simp: non_null_iff map_of_reg_update)
  with Cons.IH [OF rest] show ?case by simp
qed

lemma for_each_object_Some:
  assumes "for_each_object arr cs s = Some s'"
  shows "trace s' = trace s @ objects_trace cs (reg_keys arr (mMap s))"
    and "map fst (mMap s') = map fst (mMap s)"
    and "non_null (mMap s') k = non_null (mMap s) k"
    and "mInitialized s' = mInitialized s" "mMainWindow s' = mMainWindow s" "mCamera s' = mCamera s"
    and "mShaders s' = mShaders s" "CamPos s' = CamPos s" "ActivateRain s' = ActivateRain s"
    and "mRainAmount s' = mRainAmount s" "mRainDrops s' = mRainDrops s"
    and "frameCount s' = frameCount s" "prng s' = prng s"
proof -
  from assms obtain r tr where v: "visit_all cs (reg_keys arr (mMap s)) (mMap s, []) = Some (r, tr)"
    and s': "s' = emit tr (s\<lparr>mMap := r\<rparr>)"
    by (auto simp: for_each_object_def split: option.splits)
  from visit_all_trace [OF v] visit_all_non_null [OF v, of k] s'
  show "trace s' = trace s @ objects_trace cs (reg_keys arr (mMap s))"
    and "map fst (mMap s') = map fst (mMap s)"
    and "non_null (mMap s') k = non_null (mMap s) k"
    and "mInitialized s' = mInitialized s" "mMainWindow s' = mMainWindow s" "mCamera s' = mCamera s"
    and "mShaders s' = mShaders s" "CamPos s' = CamPos s" "ActivateRain s' = ActivateRain s"
    and "mRainAmount s' = mRainAmount s" "mRainDrops s' = mRainDrops s"
    and "frameCount s' = frameCount s" "prng s' = prng s"
    by simp_all
qed

lemma for_each_object_glFunctions:
  assumes "for_each_object arr cs s = Some s'"
  shows "glFunctions s' = glFunctions s"
  using assms by (auto simp: for_each_object_def split: option.splits)

lemma for_each_object_total:
  assumes "list_all (non_null (mMap s)) (reg_keys arr (mMap s))"
  shows "\<exists>s'. for_each_object arr cs s = Some s'"
proof -
  from visit_all_total [OF assms, of cs "[]"]
  obtain r tr where "visit_all cs (reg_keys arr (mMap s)) (mMap s, []) = Some (r, tr)" by auto
  then show ?thesis by (simp add: for_each_object_def)
qed


lemma non_null_fresh_map:
  "non_null [(''Surface'', Some surface0), (''Ball'', Some ball0)] ''Surface''"
  "non_null [(''Surface'', Some surface0), (''Ball'', Some ball0)] ''Ball''"
  by (simp_all add: non_null_def)

lemma init_fresh:
  assumes "mShaders s = []" "mMap s = []"
    and "set (arr [''Surface'', ''Ball'']) \<subseteq> {''Surface'', ''Ball''}"
  shows "\<exists>s'. init arr True s = Some s' \<and> mInitialized s' \<and> mCamera s' \<and>
           mShaders s' = shaders4 \<and> map fst (mMap s') = [''Surface'', ''Ball''] \<and>
           non_null (mMap s') ''Surface'' \<and> non_null (mMap s') ''Ball'' \<and>
           trace s' = trace (init_setup (emit [Connect_timeout_render, MakeCurrent] s)) @
             objects_trace [OInit, OUpdateTransform] (arr [''Surface'', ''Ball'']) @
             [GlBindVertexArray0]"
proof -
  let ?s1 = "emit [Connect_timeout_render, MakeCurrent] s"
  have sh: "mShaders (init_setup ?s1) = shaders4"
    and m: "mMap (init_setup ?s1) = [(''Surface'', Some surface0), (''Ball'', Some ball0)]"
    using assms(1,2) by (simp_all add: init_setup_fresh)
  have keys: "reg_keys arr (mMap (init_setup ?s1)) = arr [''Surface'', ''Ball'']"
    by (simp add: m reg_keys_def)
  have "list_all (non_null [(''Surface'', Some surface0), (''Ball'', Some ball0)])
          (arr [''Surface'', ''Ball''])"
    unfolding list_all_iff using assms(3) non_null_fresh_map by auto
  then have "list_all (non_null (mMap (init_setup ?s1))) (reg_keys arr (mMap (init_setup ?s1)))"
    by (simp add: m reg_keys_def)
  from for_each_object_total [OF this, of "[OInit, OUpdateTransform]"]
  obtain s9 where s9: "for_each_object arr [OInit, OUpdateTransform] (init_setup ?s1) = Some s9"
    by auto
  have i: "init arr True s = Some (emit [GlBindVertexArray0] s9)"
    using s9 by (simp add: init_def Let_def)
  note f = for_each_object_Some [OF s9]
  have "non_null (mMap s9) ''Surface''" "non_null (mMap s9) ''Ball''"
    using f(3) m non_null_fresh_map by simp_all
  moreover have "map fst (mMap s9) = [''Surface'', ''Ball'']" using f(2) m by simp
  moreover have "mShaders s9 = shaders4" using f(7) sh by simp
  moreover have "mInitialized s9" "mCamera s9" using f(4,6) by simp_all
  moreover have "trace s9 = trace (init_setup ?s1) @ objects_trace [OInit, OUpdateTransform] (arr [''Surface'', ''Ball''])"
    using f(1) keys by simp
  ultimately show ?thesis using i by simp
qed

lemma foldl_insert_shader_trace:
  "trace (foldl (\<lambda>s e. insert_shader e s) s es) = trace s @ map (\<lambda>e. NewShader (snd e)) es"
  by (induction es arbitrary: s) simp_all

lemma init_setup_trace:
  "\<exists>o1 o2 w. trace (init_setup s) = trace s @
      [InitializeOpenGLFunctions, LogText ''The active GPU and API:'' HIGHLIGHT,
       LogGpuInfo, StartOpenGLDebugger, GlEnable_DEPTH_TEST, GlClearColor] @
      map (\<lambda>e. NewShader (snd e)) the_shaders @ [NewCamera, NewObject o1, NewObject o2] @ w \<and>
      (w = [] \<or> (\<exists>x. w = [ObjCall (Registered ''Ball'') (OSetSurface x)]))"
proof -
  let ?s2 = "(if \<not> mInitialized s then s\<lparr>mInitialized := True\<rparr> else s)"
  let ?s3 = "emit [InitializeOpenGLFunctions, LogText ''The active GPU and API:'' HIGHLIGHT,
                     LogGpuInfo, StartOpenGLDebugger, GlEnable_DEPTH_TEST, GlClearColor]
               (?s2\<lparr>glFunctions := True\<rparr>)"
  let ?s4 = "foldl (\<lambda>s e. insert_shader e s) ?s3 the_shaders"
  let ?s5 = "emit [NewCamera] (?s4\<lparr>mCamera := True\<rparr>)"
  let ?s6 = "insert_object ''Surface'' SurfaceMesh ?s5"
  let ?s7 = "insert_object ''Ball'' (RollingBall ball_obj) ?s6"
  have eq: "init_setup s = wire_ball ?s7" by (simp add: init_setup_def Let_def)
  obtain o1 o2 where t7: "trace ?s7 = trace s @
      [InitializeOpenGLFunctions, LogText ''The active GPU and API:'' HIGHLIGHT,
       LogGpuInfo, StartOpenGLDebugger, GlEnable_DEPTH_TEST, GlClearColor] @
      map (\<lambda>e. NewShader (snd e)) the_shaders @ [NewCamera, NewObject o1, NewObject o2]"
    by (simp add: foldl_insert_shader_trace)
  obtain m cs where w: "wire_ball ?s7 = emit cs (?s7\<lparr>mMap := m\<rparr>)"
    and cs: "cs = [] \<or> (\<exists>x. cs = [ObjCall (Registered ''Ball'') (OSetSurface x)])"
    using wire_ball_shape [of ?s7] by auto
  have "trace (init_setup s) = trace ?s7 @ cs" unfolding eq w by simp
  with t7 cs show ?thesis by auto
qed


lemma init_succeeded:
  assumes "init arr True s = Some s1"
  shows "mInitialized s1" "glFunctions s1"
proof -
  from assms obtain s9 where
    s9: "for_each_object arr [OInit, OUpdateTransform]
           (init_setup (emit [Connect_timeout_render, MakeCurrent] s)) = Some s9"
    and s1: "s1 = emit [GlBindVertexArray0] s9"
    by (auto simp: init_def Let_def split: option.splits)
  from for_each_object_Some(4) [OF s9] s1 show "mInitialized s1" by simp
  from for_each_object_glFunctions [OF s9] s1 show "glFunctions s1" by simp
qed

lemma exposeEvent_uninitialized:
  assumes "\<not> mInitialized s" "init arr True s = Some s1"
  shows "exposeEvent arr True ex s =
           Some (if ex then emit [TimerStart16, ClockStart] (emit [GlViewport] s1) else emit [GlViewport] s1)"
  using assms init_succeeded(2) [OF assms(2)] by (simp add: exposeEvent_def Let_def)

lemma exposeEvent_initialized:
  assumes "mInitialized s" "glFunctions s"
  shows "exposeEvent arr ok ex s =
           Some (if ex then emit [TimerStart16, ClockStart] (emit [GlViewport] s) else emit [GlViewport] s)"
  using assms by (simp add: exposeEvent_def Let_def)


lemma example_window_fields [simp]:
  "mInitialized example_window = False" "mMainWindow example_window = True"
  "mCamera example_window = False" "mShaders example_window = []" "mMap example_window = []"
  "CamPos example_window = (0, 7, 3)" "ActivateRain example_window = False"
  "mRainAmount example_window = 2" "mRainDrops example_window = []"
  "frameCount example_window = 0" "prng example_window = 1" "trace example_window = []"
  by (simp_all add: example_window_def RenderWindow_def)

lemma example_window_glFunctions [simp]: "glFunctions example_window = False"
  by (simp add: example_window_def RenderWindow_def)

lemma visited_by_setup:
  assumes "c \<in> {OInit, OUpdateTransform, ODraw}"
  shows "visited_by c (trace (init_setup s)) = visited_by c (trace s)"
proof -
  obtain o1 o2 w where t: "trace (init_setup s) = trace s @
      [InitializeOpenGLFunctions, LogText ''The active GPU and API:'' HIGHLIGHT,
       LogGpuInfo, StartOpenGLDebugger, GlEnable_DEPTH_TEST, GlClearColor] @
      map (\<lambda>e. NewShader (snd e)) the_shaders @ [NewCamera, NewObject o1, NewObject o2] @ w"
    and w: "w = [] \<or> (\<exists>x. w = [ObjCall (Registered ''Ball'') (OSetSurface x)])"
    using init_setup_trace [of s] by auto
  have "visited_by c w = []" using w assms by auto
  then show ?thesis unfolding t by (simp add: visited_by_append the_shaders_def)
qed

lemma concat_singletons: "concat (map (\<lambda>k. [k]) ks) = ks"
  by (induction ks) simp_all

lemma visited_by_objects_trace:
  "visited_by OInit (objects_trace [OInit, OUpdateTransform] ks) = ks"
  "visited_by OUpdateTransform (objects_trace [OInit, OUpdateTransform] ks) = ks"
  "visited_by OUpdateTransform (objects_trace [OUpdateTransform, ODraw] ks) = ks"
  "visited_by ODraw (objects_trace [OUpdateTransform, ODraw] ks) = ks"
  by (simp_all add: visited_by_visits concat_singletons)

lemma started_props:
  assumes "set (arr [''Surface'', ''Ball'']) \<subseteq> {''Surface'', ''Ball''}"
  shows "\<exists>s1. init arr True example_window = Some s1 \<and>
           exposeEvent arr True True example_window = Some (started arr) \<and>
           started arr = emit [TimerStart16, ClockStart] (emit [GlViewport] s1) \<and>
           mInitialized s1 \<and> mCamera s1 \<and> mShaders s1 = shaders4 \<and>
           map fst (mMap s1) = [''Surface'', ''Ball''] \<and>
           non_null (mMap s1) ''Surface'' \<and> non_null (mMap s1) ''Ball'' \<and>
           visited_by OInit (trace s1) = arr [''Surface'', ''Ball''] \<and>
           visited_by OUpdateTransform (trace s1) = arr [''Surface'', ''Ball'']"
proof -
  from init_fresh [of example_window arr, OF _ _ assms]
  obtain s1 where i: "init arr True example_window = Some s1"
    and p: "mInitialized s1" "mCamera s1" "mShaders s1 = shaders4"
      "map fst (mMap s1) = [''Surface'', ''Ball'']"
      "non_null (mMap s1) ''Surface''" "non_null (mMap s1) ''Ball''"
    and t: "trace s1 = trace (init_setup (emit [Connect_timeout_render, MakeCurrent] example_window)) @
             objects_trace [OInit, OUpdateTransform] (arr [''Surface'', ''Ball'']) @
             [GlBindVertexArray0]"
    by auto
  have e: "exposeEvent arr True True example_window =
             Some (emit [TimerStart16, ClockStart] (emit [GlViewport] s1))"
    using exposeEvent_uninitialized [of example_window arr s1 True] i by simp
  then have st: "started arr = emit [TimerStart16, ClockStart] (emit [GlViewport] s1)"
    by (simp add: started_def)
  have v1: "visited_by OInit (trace s1) = arr [''Surface'', ''Ball'']"
    unfolding t by (simp add: visited_by_append visited_by_setup visited_by_objects_trace)
  have v2: "visited_by OUpdateTransform (trace s1) = arr [''Surface'', ''Ball'']"
    unfolding t by (simp add: visited_by_append visited_by_setup visited_by_objects_trace)
  show ?thesis using i e st p v1 v2 by simp
qed

lemma non_null_shaders4: "k \<in> set (map fst shaders4) \<Longrightarrow> non_null shaders4 k"
  by (auto simp: shaders4_def the_shaders_def non_null_def)

lemma started_ready:
  assumes "set (arrM [''Surface'', ''Ball'']) \<subseteq> {''Surface'', ''Ball''}"
    and "set (arrS (map fst shaders4)) \<subseteq> set (map fst shaders4)"
  shows "ready arrS arrM (started arrM)"
proof -
  from started_props [of arrM] assms(1) obtain s1 where
    st: "started arrM = emit [TimerStart16, ClockStart] (emit [GlViewport] s1)"
    and p: "mCamera s1" "mShaders s1 = shaders4" "map fst (mMap s1) = [''Surface'', ''Ball'']"
      "non_null (mMap s1) ''Surface''" "non_null (mMap s1) ''Ball''"
    by auto
  have "list_all (non_null shaders4) (arrS (map fst shaders4))"
    using assms(2) non_null_shaders4 by (auto simp: list_all_iff)
  moreover have "list_all (non_null (mMap s1)) (arrM [''Surface'', ''Ball''])"
    using assms(1) p(4,5) by (auto simp: list_all_iff)
  ultimately show ?thesis using p by (simp add: ready_def st reg_keys_def)
qed

lemma key_order_two: "key_order [''Surface'', ''Ball''] = [''Ball'', ''Surface'']"
  by (simp add: key_order_def)

lemma set_key_order [simp]: "set (key_order ks) = set ks"
  by (simp add: key_order_def)

lemma started_key_order_ready: "ready key_order key_order (started key_order)"
  by (rule started_ready) simp_all

subsection \<open>A frame without a current context\<close>

lemma shader_loop_no_log: "shader_loop pos r ks = Some tr \<Longrightarrow> filter is_log tr = []"
  by (induction ks arbitrary: tr)
     (auto split: option.splits simp: shader_calls_def is_log_def)

lemma objects_trace_no_log: "filter is_log (objects_trace cs ks) = []"
  by (induction ks) (auto simp: objects_trace_def is_log_def)

lemma rain_trace_no_log: "filter is_log (rain_trace s) = []"
  by (auto simp: rain_trace_def is_log_def)

lemma visited_by_rain_trace: "visited_by c (rain_trace s) = []"
proof -
  have "visited_by c (concat (map (\<lambda>i. map (ObjCall (RainDrop i)) cs) is)) = []" for cs "is"
  proof (induction "is")
    case Nil
    then show ?case by simp
  next
    case (Cons i "is")
    have "visited_by c (map (ObjCall (RainDrop i)) cs) = []" by (induction cs) auto
    with Cons show ?case by (simp add: visited_by_append)
  qed
  then show ?thesis by (simp add: rain_trace_def)
qed

lemma render_every_visited:
  assumes "ready arrS arrM s"
  shows "\<exists>s'. render_every p arrS arrM inp s = Some s' \<and>
           map fst (mMap s') = map fst (mMap s) \<and>
           visited_by OUpdateTransform (new_calls s s') = reg_keys arrM (mMap s) \<and>
           visited_by ODraw (new_calls s s') = reg_keys arrM (mMap s) \<and>
           GlClear \<in> set (new_calls s s') \<and> SwapBuffers \<in> set (new_calls s s') \<and>
           filter is_log (new_calls s s') = []"
proof -
  from render_every_calls [OF assms, of p inp]
  obtain s' ms tr where r: "render_every p arrS arrM inp s = Some s'"
    and ms: "ms = [] \<or> ms = [ShowMessage (nsecsElapsed inp)]"
    and tr: "shader_loop (camera_position inp) (mShaders s) (reg_keys arrS (mShaders s)) = Some tr"
    and k: "map fst (mMap s') = map fst (mMap s)"
    and n: "new_calls s s' = ms @ frame_head inp (CamPos s) @ tr @ rain_trace s @
              objects_trace [OUpdateTransform, ODraw] (reg_keys arrM (mMap s)) @ [SwapBuffers]"
    by auto
  have v0: "visited_by c ms = []" "filter is_log ms = []" for c
    using ms by (auto simp: is_log_def)
  have v1: "visited_by OUpdateTransform (frame_head inp (CamPos s)) = []"
    "visited_by ODraw (frame_head inp (CamPos s)) = []" 
    "filter is_log (frame_head inp (CamPos s)) = []"
    "GlClear \<in> set (frame_head inp (CamPos s))"
    by (simp_all add: frame_head_def is_log_def)
  note v2 = shader_loop_not_obj [OF tr] shader_loop_no_log [OF tr]
  have "visited_by OUpdateTransform (new_calls s s') = reg_keys arrM (mMap s)"
    unfolding n by (simp add: visited_by_append v0 v1 v2 visited_by_rain_trace visited_by_objects_trace)
  moreover have "visited_by ODraw (new_calls s s') = reg_keys arrM (mMap s)"
    unfolding n by (simp add: visited_by_append v0 v1 v2 visited_by_rain_trace visited_by_objects_trace)
  moreover have "filter is_log (new_calls s s') = []"
    unfolding n by (simp add: v0 v1 v2 rain_trace_no_log objects_trace_no_log is_log_def)
  moreover have "GlClear \<in> set (new_calls s s')" "SwapBuffers \<in> set (new_calls s s')"
    unfolding n using v1(4) by simp_all
  ultimately show ?thesis using r k by simp
qed

lemma render_every_makeCurrent:
  "render_every p arrS arrM (inp\<lparr>makeCurrent_ok := b\<rparr>) s = render_every p arrS arrM inp s"
  by (simp add: render_every_def draw_frame_def Let_def
           cong: option.case_cong prod.case_cong if_cong)

text \<open>
  Claim C3. The claim says that a frame whose \<open>makeCurrent\<close> fails is abandoned with a
  logged error. \<open>render\<close> does not read the result of \<open>makeCurrent\<close>: in a window that is
  ready to draw, a frame with a failed \<open>makeCurrent\<close> clears, draws every registered
  object, swaps the buffers and logs nothing, exactly as a frame with a successful one.
\<close>

theorem render_proceeds_without_context:
  assumes "ready arrS arrM s" "\<not> makeCurrent_ok inp"
  shows "\<exists>s'. render arrS arrM inp s = Some s' \<and>
           render arrS arrM (inp\<lparr>makeCurrent_ok := True\<rparr>) s = Some s' \<and>
           GlClear \<in> set (new_calls s s') \<and>
           visited_by ODraw (new_calls s s') = reg_keys arrM (mMap s) \<and>
           SwapBuffers \<in> set (new_calls s s') \<and>
           filter is_log (new_calls s s') = []"
  using render_every_visited [OF assms(1), of 30 inp] render_every_makeCurrent [where p = 30 and inp = inp and b = True and s = s]
  by (auto simp: render_def)

theorem render_proceeds_without_context_witness:
  "\<not> makeCurrent_ok example_frame \<and>
   (\<exists>s'. render key_order key_order example_frame (started key_order) = Some s' \<and>
      GlClear \<in> set (new_calls (started key_order) s') \<and>
      visited_by ODraw (new_calls (started key_order) s') = [''Ball'', ''Surface''] \<and>
      SwapBuffers \<in> set (new_calls (started key_order) s') \<and>
      filter is_log (new_calls (started key_order) s') = [])"
proof -
  have f: "\<not> makeCurrent_ok example_frame" by (simp add: example_frame_def)
  have k: "reg_keys key_order (mMap (started key_order)) = [''Ball'', ''Surface'']"
    using started_props [of key_order] by (auto simp: reg_keys_def key_order_two)
  from render_proceeds_without_context [OF started_key_order_ready f] k f
  show ?thesis by auto
qed

subsection \<open>The camera uniforms\<close>

text \<open>
  Claim C1. In a frame of a window that is ready to draw, every program registered in
  \<open>mShaders\<close> (the loop reaching every key of the container) is activated and is then
  sent the camera's view matrix as "vMatrix" and its projection matrix as "pMatrix";
  the program registered as "LightShader" is sent "cameraPosition" next, a vector whose
  third component is the Y coordinate of the camera position, as the second is.
\<close>

theorem render_broadcasts_camera:
  assumes "ready arrS arrM s"
    and "set (reg_keys arrS (mShaders s)) = set (map fst (mShaders s))"
    and "map_of (mShaders s) k = Some (Some sh)"
  shows "\<exists>s' a b. render arrS arrM inp s = Some s' \<and>
     new_calls s s' = a @
       [ShaderUse sh,
        SetUniformMatrix4fv sh Camera_mVmatrix ''vMatrix'',
        SetUniformMatrix4fv sh Camera_mPmatrix ''pMatrix''] @
       (if k = ''LightShader''
        then [SetUniform3f sh (vx (camera_position inp)) (vy (camera_position inp))
                (vy (camera_position inp)) ''cameraPosition'']
        else []) @ b"
  using render_broadcast_segment [OF assms, of inp] unfolding shader_calls_def by simp

theorem render_broadcasts_camera_witness:
  "ready key_order key_order (started key_order) \<and>
   set (reg_keys key_order (mShaders (started key_order))) = set (map fst (mShaders (started key_order))) \<and>
   map_of (mShaders (started key_order)) ''LightShader'' = Some (Some light) \<and>
   camera_position example_frame = (1, 2, 3) \<and>
   (\<exists>s' a b. render key_order key_order example_frame (started key_order) = Some s' \<and>
      new_calls (started key_order) s' = a @
        [ShaderUse light,
         SetUniformMatrix4fv light Camera_mVmatrix ''vMatrix'',
         SetUniformMatrix4fv light Camera_mPmatrix ''pMatrix'',
         SetUniform3f light 1 2 2 ''cameraPosition''] @ b)"
proof -
  have sh: "mShaders (started key_order) = shaders4"
    using started_props [of key_order] by auto
  have 1: "set (reg_keys key_order (mShaders (started key_order))) = set (map fst (mShaders (started key_order)))"
    by (simp add: reg_keys_def)
  have 2: "map_of (mShaders (started key_order)) ''LightShader'' = Some (Some light)"
    by (simp add: sh shaders4_def the_shaders_def light_def)
  have 3: "camera_position example_frame = (1, 2, 3)" by (simp add: example_frame_def)
  from render_broadcasts_camera [OF started_key_order_ready 1 2, of example_frame] 
  show ?thesis using started_key_order_ready 1 2 3 by simp
qed

subsection \<open>The order of the registered objects\<close>

text \<open>
  Claim C2 (amended). Both loops over \<open>mMap\<close> run from \<open>begin()\<close> to \<open>end()\<close>, so the
  objects are visited in the order in which the container is run through: \<open>init\<close>, in a
  window whose registries are empty, inserts "Surface" and then "Ball" and calls \<open>init\<close>
  and \<open>UpdateTransform\<close> on them in the container's order of these two keys; every frame
  of a window that is ready to draw calls \<open>UpdateTransform\<close> and \<open>draw\<close> in the
  container's order of the keys of \<open>mMap\<close>. That order is the order of insertion only
  for a container that keeps it.
\<close>

theorem registry_visited_in_container_order:
  "(mShaders s0 = [] \<and> mMap s0 = [] \<and> set (arr [''Surface'', ''Ball'']) \<subseteq> {''Surface'', ''Ball''} \<longrightarrow>
      (\<exists>s1. init arr True s0 = Some s1 \<and>
         map fst (mMap s1) = [''Surface'', ''Ball''] \<and>
         visited_by OInit (new_calls s0 s1) = arr [''Surface'', ''Ball''] \<and>
         visited_by OUpdateTransform (new_calls s0 s1) = arr [''Surface'', ''Ball''])) \<and>
   (ready arrS arr s \<longrightarrow>
      (\<exists>s'. render arrS arr inp s = Some s' \<and>
         map fst (mMap s') = map fst (mMap s) \<and>
         visited_by OUpdateTransform (new_calls s s') = arr (map fst (mMap s)) \<and>
         visited_by ODraw (new_calls s s') = arr (map fst (mMap s))))"
proof (intro conjI impI)
  assume a: "mShaders s0 = [] \<and> mMap s0 = [] \<and> set (arr [''Surface'', ''Ball'']) \<subseteq> {''Surface'', ''Ball''}"
  from init_fresh [of s0 arr] a
  obtain s1 where i: "init arr True s0 = Some s1"
    and k: "map fst (mMap s1) = [''Surface'', ''Ball'']"
    and t: "trace s1 = trace (init_setup (emit [Connect_timeout_render, MakeCurrent] s0)) @
             objects_trace [OInit, OUpdateTransform] (arr [''Surface'', ''Ball'']) @
             [GlBindVertexArray0]"
    by auto
  obtain cs where cs: "trace (init_setup (emit [Connect_timeout_render, MakeCurrent] s0)) =
      trace s0 @ Connect_timeout_render # MakeCurrent # cs"
    and vcs: "visited_by OInit cs = []" "visited_by OUpdateTransform cs = []"
    using init_setup_trace [of "emit [Connect_timeout_render, MakeCurrent] s0"]
    by (auto simp: visited_by_append the_shaders_def)
  have n: "new_calls s0 s1 = Connect_timeout_render # MakeCurrent # cs @
             objects_trace [OInit, OUpdateTransform] (arr [''Surface'', ''Ball'']) @
             [GlBindVertexArray0]"
    unfolding new_calls_def t cs by simp
  have "visited_by OInit (new_calls s0 s1) = arr [''Surface'', ''Ball'']"
    "visited_by OUpdateTransform (new_calls s0 s1) = arr [''Surface'', ''Ball'']"
    unfolding n by (simp_all add: visited_by_append vcs visited_by_objects_trace)
  with i k show "\<exists>s1. init arr True s0 = Some s1 \<and>
         map fst (mMap s1) = [''Surface'', ''Ball''] \<and>
         visited_by OInit (new_calls s0 s1) = arr [''Surface'', ''Ball''] \<and>
         visited_by OUpdateTransform (new_calls s0 s1) = arr [''Surface'', ''Ball'']"
    by simp
next
  assume "ready arrS arr s"
  from render_every_visited [OF this, of 30 inp]
  show "\<exists>s'. render arrS arr inp s = Some s' \<and>
         map fst (mMap s') = map fst (mMap s) \<and>
         visited_by OUpdateTransform (new_calls s s') = arr (map fst (mMap s)) \<and>
         visited_by ODraw (new_calls s s') = arr (map fst (mMap s))"
    by (auto simp: render_def reg_keys_def)
qed

lemma insertion_order_id [simp]: "insertion_order ks = ks"
  by (simp add: insertion_order_def)

theorem registry_visited_in_container_order_witness:
  "mShaders example_window = [] \<and> mMap example_window = [] \<and>
   set (insertion_order [''Surface'', ''Ball'']) \<subseteq> {''Surface'', ''Ball''} \<and>
   ready insertion_order insertion_order (started insertion_order) \<and>
   (\<exists>s1. init insertion_order True example_window = Some s1 \<and>
      map fst (mMap s1) = [''Surface'', ''Ball''] \<and>
      visited_by OInit (new_calls example_window s1) = [''Surface'', ''Ball'']) \<and>
   (\<exists>s'. render insertion_order insertion_order example_frame (started insertion_order) = Some s' \<and>
      visited_by OUpdateTransform (new_calls (started insertion_order) s') = [''Surface'', ''Ball''] \<and>
      visited_by ODraw (new_calls (started insertion_order) s') = [''Surface'', ''Ball''])"
proof -
  have r: "ready insertion_order insertion_order (started insertion_order)"
    by (rule started_ready) simp_all
  have k: "map fst (mMap (started insertion_order)) = [''Surface'', ''Ball'']"
    using started_props [of insertion_order] by auto
  from registry_visited_in_container_order
         [of example_window insertion_order insertion_order "started insertion_order" example_frame]
  show ?thesis using r k by auto
qed

theorem registry_key_order_counterexample:
  "map_option (\<lambda>s1. (map fst (mMap s1), visited_by OInit (trace s1)))
     (init key_order True example_window) = Some ([''Surface'', ''Ball''], [''Ball'', ''Surface'']) \<and>
   map_option (\<lambda>s'. visited_by ODraw (new_calls (started key_order) s'))
     (render key_order key_order example_frame (started key_order)) = Some [''Ball'', ''Surface'']"
proof -
  from started_props [of key_order]
  obtain s1 where i: "init key_order True example_window = Some s1"
    and k: "map fst (mMap s1) = [''Surface'', ''Ball'']"
    and v: "visited_by OInit (trace s1) = key_order [''Surface'', ''Ball'']"
    and st: "started key_order = emit [TimerStart16, ClockStart] (emit [GlViewport] s1)"
    by auto
  from render_every_visited [OF started_key_order_ready, of 30 example_frame]
  obtain s' where r: "render key_order key_order example_frame (started key_order) = Some s'"
    and d: "visited_by ODraw (new_calls (started key_order) s') = reg_keys key_order (mMap (started key_order))"
    by (auto simp: render_def)
  have "reg_keys key_order (mMap (started key_order)) = [''Ball'', ''Surface'']"
    using k by (simp add: st reg_keys_def key_order_two)
  with i k v r d show ?thesis by (simp add: key_order_two)
qed

subsection \<open>Expose notifications\<close>







lemma example_platform_fields [simp]:
  "shaders_order example_platform = key_order" "objects_order example_platform = key_order"
  "lib_rand example_platform = c_rand" "spawn_args example_platform = X_first"
  by (simp_all add: example_platform_def)




subsection \<open>The rain toggle\<close>

lemma reg_index_again:
  "reg_index k (snd (reg_index k r)) = (fst (reg_index k r), snd (reg_index k r))"
  by (auto simp: reg_index_def split: option.splits)

lemma spawn_one_fields [simp]:
  "mInitialized (spawn_one rand ord i s) = mInitialized s"
  "mMainWindow (spawn_one rand ord i s) = mMainWindow s"
  "mCamera (spawn_one rand ord i s) = mCamera s"
  "mMap (spawn_one rand ord i s) = mMap s"
  "CamPos (spawn_one rand ord i s) = CamPos s"
  "ActivateRain (spawn_one rand ord i s) = ActivateRain s"
  "mRainAmount (spawn_one rand ord i s) = mRainAmount s"
  "frameCount (spawn_one rand ord i s) = frameCount s"
  "mShaders (spawn_one rand ord i s) = snd (reg_index ''PlainShader'' (mShaders s))"
  by (simp_all add: spawn_one_def Let_def split: prod.splits)

lemma spawn_one_glFunctions [simp]: "glFunctions (spawn_one rand ord i s) = glFunctions s"
  by (simp add: spawn_one_def Let_def split: prod.splits)

lemma spawn_one_drops:
  "mRainDrops (spawn_one rand ord i s) =
     mRainDrops s @ [rain_ball (fst (reg_index ''PlainShader'' (mShaders s)))
                       (RainSpawn ord (fst (rand (prng s))) (fst (rand (snd (rand (prng s))))))]"
  by (simp add: spawn_one_def Let_def rain_ball_def new_object_def send_def split: prod.splits)

lemma spawn_one_prng:
  "prng (spawn_one rand ord i s) = snd (rand (snd (rand (prng s))))"
  by (simp add: spawn_one_def Let_def split: prod.splits)

lemma spawn_one_trace:
  "\<exists>cs. trace (spawn_one rand ord i s) = trace s @ cs \<and> filter is_message cs = [] \<and>
     init_entries cs = 0"
  by (simp add: spawn_one_def Let_def is_message_def init_entries_def split: prod.splits)

lemma spawned_positions_unfold:
  "0 < k \<Longrightarrow> spawned_positions rand ord k g =
     RainSpawn ord (fst (rand g)) (fst (rand (snd (rand g)))) #
       spawned_positions rand ord (k - 1) (snd (rand (snd (rand g))))"
  by (cases k) (simp_all add: Let_def split: prod.splits)

declare spawn_loop.simps [simp del]

lemma spawn_loop_drops:
  "mRainDrops (spawn_loop rand ord n i s) =
     mRainDrops s @ map (rain_ball (fst (reg_index ''PlainShader'' (mShaders s))))
                        (spawned_positions rand ord (nat (n - i)) (prng s))"
proof (induction rand ord n i s rule: spawn_loop.induct)
  case (1 rand ord n i s)
  show ?case
  proof (cases "i < n")
    case True
    have k: "0 < nat (n - i)" "nat (n - i) - Suc 0 = nat (n - (i + 1))" using True by simp_all
    have "mRainDrops (spawn_loop rand ord n i s) =
            mRainDrops (spawn_loop rand ord n (i + 1) (spawn_one rand ord i s))"
      using True by (simp add: spawn_loop.simps [of rand ord n i s])
    also have "\<dots> = mRainDrops (spawn_one rand ord i s) @
        map (rain_ball (fst (reg_index ''PlainShader'' (mShaders (spawn_one rand ord i s)))))
            (spawned_positions rand ord (nat (n - (i + 1))) (prng (spawn_one rand ord i s)))"
      using "1.IH" [OF True] .
    finally show ?thesis
      by (simp add: spawn_one_drops spawn_one_prng reg_index_again
            spawned_positions_unfold [OF k(1)] k(2))
  next
    case False
    then show ?thesis by (simp add: spawn_loop.simps [of rand ord n i s])
  qed
qed

lemma spawn_loop_fields:
  "mInitialized (spawn_loop rand ord n i s) = mInitialized s"
  "mMainWindow (spawn_loop rand ord n i s) = mMainWindow s"
  "mCamera (spawn_loop rand ord n i s) = mCamera s"
  "mMap (spawn_loop rand ord n i s) = mMap s"
  "CamPos (spawn_loop rand ord n i s) = CamPos s"
  "ActivateRain (spawn_loop rand ord n i s) = ActivateRain s"
  "mRainAmount (spawn_loop rand ord n i s) = mRainAmount s"
  "frameCount (spawn_loop rand ord n i s) = frameCount s"
  by (induction rand ord n i s rule: spawn_loop.induct;
      subst spawn_loop.simps; simp)+

lemma spawn_loop_glFunctions: "glFunctions (spawn_loop rand ord n i s) = glFunctions s"
  by (induction rand ord n i s rule: spawn_loop.induct; subst spawn_loop.simps; simp)

lemma RainSpawn_bounds:
  "- 10 \<le> vx (RainSpawn ord a b) \<and> vx (RainSpawn ord a b) \<le> 9 \<and> vy (RainSpawn ord a b) = 5 \<and>
   - 10 \<le> vz (RainSpawn ord a b) \<and> vz (RainSpawn ord a b) \<le> 9"
proof -
  have "x mod 20 \<le> 19" for x :: nat by presburger
  from this [of a] this [of b] show ?thesis
    by (cases ord) (simp_all add: RainSpawn_def)
qed

lemma spawned_positions_bounds:
  "p \<in> set (spawned_positions rand ord k g) \<Longrightarrow>
     - 10 \<le> vx p \<and> vx p \<le> 9 \<and> vy p = 5 \<and> - 10 \<le> vz p \<and> vz p \<le> 9"
  by (induction k arbitrary: g) (auto simp: Let_def RainSpawn_bounds split: prod.splits)

lemma length_spawned_positions [simp]: "length (spawned_positions rand ord k g) = k"
  by (induction k arbitrary: g) (auto simp: Let_def split: prod.splits)

lemma rain_positions_append:
  "rain_positions (s\<lparr>mRainDrops := ds @ map (rain_ball p) ps\<rparr>) =
     rain_positions (s\<lparr>mRainDrops := ds\<rparr>) @ ps"
  by (induction ps rule: rev_induct) (simp_all add: rain_positions_def rain_ball_def)

lemma keyPressEvent_rain_on:
  assumes "\<not> ActivateRain s"
  shows "keyPressEvent rand ord Key_I s =
           Some ((spawn_loop rand ord (mRainAmount s) 0 s)\<lparr>ActivateRain := True\<rparr>)"
  using assms by (simp add: keyPressEvent_def)

lemma keyPressEvent_rain_off:
  assumes "ActivateRain s"
  shows "keyPressEvent rand ord Key_I s = Some (s\<lparr>ActivateRain := False, mRainDrops := []\<rparr>)"
  using assms by (simp add: keyPressEvent_def)

text \<open>
  Claim C4 (amended). Pressing I while the rain is inactive sets the flag and appends to
  \<open>mRainDrops\<close>, in spawn order, as many balls as \<open>mRainAmount\<close> says (none when it is
  not positive); each ball has been initialised, then given its spawn position, then had
  its physics enabled; each position has X and Z in \<open>[-10, 9]\<close> and the height 5. Pressing
  I while the rain is active clears the flag and empties \<open>mRainDrops\<close>. The positions
  need not be distinct.
\<close>

theorem rain_toggle:
  "(\<not> ActivateRain s \<longrightarrow>
      (\<exists>s' ps p. keyPressEvent rand ord Key_I s = Some s' \<and> ActivateRain s' \<and>
         ps = spawned_positions rand ord (nat (mRainAmount s)) (prng s) \<and>
         mRainDrops s' = mRainDrops s @ map (rain_ball p) ps \<and>
         length ps = nat (mRainAmount s) \<and>
         (\<forall>q \<in> set ps. - 10 \<le> vx q \<and> vx q \<le> 9 \<and> vy q = 5 \<and> - 10 \<le> vz q \<and> vz q \<le> 9))) \<and>
   (ActivateRain s \<longrightarrow>
      (\<exists>s'. keyPressEvent rand ord Key_I s = Some s' \<and> \<not> ActivateRain s' \<and> mRainDrops s' = []))"
proof (intro conjI impI)
  assume a: "\<not> ActivateRain s"
  let ?ps = "spawned_positions rand ord (nat (mRainAmount s)) (prng s)"
  let ?p = "fst (reg_index ''PlainShader'' (mShaders s))"
  let ?s' = "(spawn_loop rand ord (mRainAmount s) 0 s)\<lparr>ActivateRain := True\<rparr>"
  have "keyPressEvent rand ord Key_I s = Some ?s'" using a by (rule keyPressEvent_rain_on)
  moreover have "mRainDrops ?s' = mRainDrops s @ map (rain_ball ?p) ?ps"
    using spawn_loop_drops [of rand ord "mRainAmount s" 0 s] by simp
  moreover have "\<forall>q \<in> set ?ps. - 10 \<le> vx q \<and> vx q \<le> 9 \<and> vy q = 5 \<and> - 10 \<le> vz q \<and> vz q \<le> 9"
    by (intro ballI) (rule spawned_positions_bounds)
  ultimately show "\<exists>s' ps p. keyPressEvent rand ord Key_I s = Some s' \<and> ActivateRain s' \<and>
         ps = spawned_positions rand ord (nat (mRainAmount s)) (prng s) \<and>
         mRainDrops s' = mRainDrops s @ map (rain_ball p) ps \<and>
         length ps = nat (mRainAmount s) \<and>
         (\<forall>q \<in> set ps. - 10 \<le> vx q \<and> vx q \<le> 9 \<and> vy q = 5 \<and> - 10 \<le> vz q \<and> vz q \<le> 9)"
    by (intro exI [of _ ?s'] exI [of _ ?ps] exI [of _ ?p]) simp
next
  assume "ActivateRain s"
  then show "\<exists>s'. keyPressEvent rand ord Key_I s = Some s' \<and> \<not> ActivateRain s' \<and> mRainDrops s' = []"
    by (simp add: keyPressEvent_rain_off)
qed

text \<open>The first 36 numbers of \<open>c_rand\<close>, from the state 1.\<close>

lemma c_rand_values:
  "c_rand 1 = (16838, 1103527590)"
  "c_rand 1103527590 = (5758, 2524885223)"
  "c_rand 2524885223 = (10113, 662824084)"
  "c_rand 662824084 = (17515, 3295386429)"
  "c_rand 3295386429 = (31051, 4182499122)"
  "c_rand 4182499122 = (5627, 2516284547)"
  "c_rand 2516284547 = (23010, 3655513600)"
  "c_rand 3655513600 = (7419, 2633739833)"
  "c_rand 2633739833 = (16212, 3210001534)"
  "c_rand 3210001534 = (4086, 267834847)"
  "c_rand 267834847 = (2749, 180171308)"
  "c_rand 180171308 = (12767, 836760821)"
  "c_rand 836760821 = (9084, 595337866)"
  "c_rand 595337866 = (12060, 2937909499)"
  "c_rand 2937909499 = (32225, 2111915288)"
  "c_rand 2111915288 = (17543, 3297241969)"
  "c_rand 3297241969 = (25089, 3791773014)"
  "c_rand 3791773014 = (21183, 3535774167)"
  "c_rand 3535774167 = (25137, 3794901700)"
  "c_rand 3794901700 = (25566, 3823029677)"
  "c_rand 3823029677 = (26966, 3914758370)"
  "c_rand 3914758370 = (4978, 2473755763)"
  "c_rand 2473755763 = (20495, 1343201072)"
  "c_rand 1343201072 = (10311, 675780521)"
  "c_rand 675780521 = (11367, 744964398)"
  "c_rand 744964398 = (30054, 1969681615)"
  "c_rand 1969681615 = (17031, 1116175964)"
  "c_rand 1116175964 = (13145, 3008955749)"
  "c_rand 3008955749 = (19882, 1303003706)"
  "c_rand 1303003706 = (25736, 3834121963)"
  "c_rand 3834121963 = (30524, 4147913800)"
  "c_rand 4147913800 = (28505, 4015624929)"
  "c_rand 4015624929 = (28394, 4008331270)"
  "c_rand 4008331270 = (22102, 1448521415)"
  "c_rand 1448521415 = (24851, 3776134388)"
  "c_rand 3776134388 = (19067, 3397090333)"
  by (simp_all add: c_rand_def)

lemma spawned_positions_18:
  "spawned_positions c_rand X_first 18 1 =
     [(8, 5, 8), (3, 5, 5), (1, 5, - 3), (0, 5, 9), (2, 5, - 4), (- 1, 5, - 3), (- 6, 5, - 10), (- 5, 5, - 7), (- 1, 5, - 7), (7, 5, - 4), (- 4, 5, 8), (5, 5, 1), (- 3, 5, 4), (1, 5, - 5), (- 8, 5, 6), (- 6, 5, - 5), (4, 5, - 8), (1, 5, - 3)]"
  by (simp add: spawned_positions_unfold c_rand_values RainSpawn_def)

lemma positions_of_rain_balls:
  "concat (map ((\<lambda>d. positions_set (received d)) \<circ> rain_ball p) ps) = ps"
  by (induction ps) (simp_all add: rain_ball_def)

lemma rain_positions_spawned:
  assumes "mRainDrops s = []" "\<not> ActivateRain s"
  shows "\<exists>s'. keyPressEvent rand ord Key_I s = Some s' \<and>
           rain_positions s' = spawned_positions rand ord (nat (mRainAmount s)) (prng s) \<and>
           length (mRainDrops s') = nat (mRainAmount s)"
proof -
  let ?s' = "(spawn_loop rand ord (mRainAmount s) 0 s)\<lparr>ActivateRain := True\<rparr>"
  have "keyPressEvent rand ord Key_I s = Some ?s'" using assms(2) by (rule keyPressEvent_rain_on)
  moreover have "mRainDrops ?s' = map (rain_ball (fst (reg_index ''PlainShader'' (mShaders s))))
                   (spawned_positions rand ord (nat (mRainAmount s)) (prng s))"
    using spawn_loop_drops [of rand ord "mRainAmount s" 0 s] assms(1) by simp
  ultimately show ?thesis
    by (simp add: rain_positions_def positions_of_rain_balls)
qed

lemma spawned_positions_2:
  "spawned_positions c_rand X_first 2 1 = [(8, 5, 8), (3, 5, 5)]"
  by (simp add: spawned_positions_unfold c_rand_values RainSpawn_def)

theorem rain_toggle_witness:
  "\<not> ActivateRain example_window \<and>
   (\<exists>s' p. keyPressEvent c_rand X_first Key_I example_window = Some s' \<and> ActivateRain s' \<and>
      mRainDrops s' = [rain_ball p (8, 5, 8), rain_ball p (3, 5, 5)]) \<and>
   ActivateRain (example_window\<lparr>ActivateRain := True, mRainDrops := [rain_ball None (8, 5, 8)]\<rparr>) \<and>
   (\<exists>s'. keyPressEvent c_rand X_first Key_I
           (example_window\<lparr>ActivateRain := True, mRainDrops := [rain_ball None (8, 5, 8)]\<rparr>) = Some s' \<and>
      \<not> ActivateRain s' \<and> mRainDrops s' = [])"
  using rain_toggle [of example_window c_rand X_first]
        rain_toggle [of "example_window\<lparr>ActivateRain := True, mRainDrops := [rain_ball None (8, 5, 8)]\<rparr>"
                        c_rand X_first]
  by (auto simp: spawned_positions_2)

theorem rain_positions_collide_counterexample:
  "map_option (\<lambda>s'. (length (mRainDrops s'), distinct (rain_positions s'),
                      rain_positions s' ! 2, rain_positions s' ! 17))
     (keyPressEvent c_rand X_first Key_I (RenderWindow True (0, 7, 3) False 18 1)) =
   Some (18, False, (1, 5, - 3), (1, 5, - 3))"
proof -
  from rain_positions_spawned [of "RenderWindow True (0, 7, 3) False 18 (1::int)" c_rand X_first]
  obtain s' where "keyPressEvent c_rand X_first Key_I (RenderWindow True (0, 7, 3) False 18 1) = Some s'"
    "rain_positions s' = spawned_positions c_rand X_first 18 1" "length (mRainDrops s') = 18"
    by (auto simp: RenderWindow_def)
  then show ?thesis by (simp add: spawned_positions_18)
qed

subsection \<open>What the handlers leave alone\<close>

lemma init_fields:
  assumes "init arr ok s = Some s'"
  shows "mMainWindow s' = mMainWindow s" "CamPos s' = CamPos s" "ActivateRain s' = ActivateRain s"
    "mRainAmount s' = mRainAmount s" "mRainDrops s' = mRainDrops s"
    "frameCount s' = frameCount s" "prng s' = prng s"
proof -
  let ?s1 = "emit [Connect_timeout_render, MakeCurrent] s"
  have "mMainWindow s' = mMainWindow s \<and> CamPos s' = CamPos s \<and> ActivateRain s' = ActivateRain s \<and>
      mRainAmount s' = mRainAmount s \<and> mRainDrops s' = mRainDrops s \<and>
      frameCount s' = frameCount s \<and> prng s' = prng s"
  proof (cases ok)
    case False
    with assms have "s' = emit [LogText ''makeCurrent() failed'' REALERROR] ?s1"
      by (simp add: init_def)
    then show ?thesis by simp
  next
    case True
    with assms obtain s9 where f: "for_each_object arr [OInit, OUpdateTransform] (init_setup ?s1) = Some s9"
      and s': "s' = emit [GlBindVertexArray0] s9"
      by (auto simp: init_def split: option.splits)
    note g = for_each_object_Some [OF f]
    show ?thesis using g(5,8,9,10,11,12,13) by (simp add: s')
  qed
  then show "mMainWindow s' = mMainWindow s" "CamPos s' = CamPos s" "ActivateRain s' = ActivateRain s"
    "mRainAmount s' = mRainAmount s" "mRainDrops s' = mRainDrops s"
    "frameCount s' = frameCount s" "prng s' = prng s"
    by simp_all
qed

lemma exposeEvent_fields:
  assumes "exposeEvent arr ok ex s = Some s'"
  shows "mMainWindow s' = mMainWindow s" "CamPos s' = CamPos s" "ActivateRain s' = ActivateRain s"
    "mRainAmount s' = mRainAmount s" "mRainDrops s' = mRainDrops s"
    "frameCount s' = frameCount s" "prng s' = prng s"
proof -
  obtain s1 where s1: "(if \<not> mInitialized s then init arr ok s else Some s) = Some s1"
    and s': "s' = (if ex then emit [TimerStart16, ClockStart] (emit [GlViewport] s1) else emit [GlViewport] s1)"
    using assms by (auto simp: exposeEvent_def Let_def split: option.splits if_splits)
  have "mMainWindow s1 = mMainWindow s \<and> CamPos s1 = CamPos s \<and> ActivateRain s1 = ActivateRain s \<and>
      mRainAmount s1 = mRainAmount s \<and> mRainDrops s1 = mRainDrops s \<and>
      frameCount s1 = frameCount s \<and> prng s1 = prng s"
  proof (cases "mInitialized s")
    case True
    with s1 show ?thesis by simp
  next
    case False
    with s1 have "init arr ok s = Some s1" by simp
    from init_fields [OF this] show ?thesis by simp
  qed
  then show "mMainWindow s' = mMainWindow s" "CamPos s' = CamPos s" "ActivateRain s' = ActivateRain s"
    "mRainAmount s' = mRainAmount s" "mRainDrops s' = mRainDrops s"
    "frameCount s' = frameCount s" "prng s' = prng s"
    by (simp_all add: s')
qed

lemma render_every_fields:
  assumes "render_every p arrS arrM inp s = Some s'"
  shows "mInitialized s' = mInitialized s" "mMainWindow s' = mMainWindow s" "mCamera s' = mCamera s"
    "mShaders s' = mShaders s" "CamPos s' = CamPos s" "ActivateRain s' = ActivateRain s"
    "mRainAmount s' = mRainAmount s" "length (mRainDrops s') = length (mRainDrops s)"
    "prng s' = prng s"
  using draw_frame_fields [OF assms [unfolded render_every_def]] by simp_all

lemma keyPressEvent_other_fields:
  assumes "keyPressEvent rand ord k s = Some s'" "k \<noteq> Key_I"
  shows "mInitialized s' = mInitialized s" "mMainWindow s' = mMainWindow s" "mCamera s' = mCamera s"
    "mShaders s' = mShaders s" "mMap s' = mMap s" "ActivateRain s' = ActivateRain s"
    "mRainAmount s' = mRainAmount s" "mRainDrops s' = mRainDrops s"
    "frameCount s' = frameCount s" "prng s' = prng s"
  using assms by (cases k; auto simp: keyPressEvent_def Let_def split: if_splits)+

lemma keyPressEvent_other_glFunctions:
  assumes "keyPressEvent rand ord k s = Some s'" "k \<noteq> Key_I"
  shows "glFunctions s' = glFunctions s"
  using assms by (cases k; auto simp: keyPressEvent_def Let_def split: if_splits)

lemma ready_cong:
  "mCamera s' = mCamera s \<Longrightarrow> mMap s' = mMap s \<Longrightarrow> mShaders s' = mShaders s \<Longrightarrow>
     ready arrS arrM s' = ready arrS arrM s"
  by (simp add: ready_def)

lemma draw_frame_ready:
  assumes "draw_frame arrS arrM inp s = Some s'" "ready arrS arrM s"
  shows "ready arrS arrM s'"
proof -
  from draw_frame_Some [OF assms(1)] obtain ob r otr where
    ob: "map_of (mMap s) ''Ball'' = Some (Some ob)"
    and v: "visit_all [OUpdateTransform, ODraw] (arrM (map fst (mMap s)))
              (reg_update ''Ball'' (send OGetPosition ob) (mMap s), []) = Some (r, otr)"
    and m: "mMap s' = r"
    by auto
  have "non_null (mMap s') k = non_null (mMap s) k" for k
    using visit_all_non_null [OF v, of k] ob m by (auto simp: non_null_iff map_of_reg_update)
  then have nn: "non_null (mMap s') = non_null (mMap s)" by (intro ext)
  have keys: "map fst (mMap s') = map fst (mMap s)"
    using visit_all_trace [OF v] m by simp
  note f = draw_frame_fields [OF assms(1)]
  show ?thesis
    using assms(2) f(3,4) by (simp add: ready_def nn keys reg_keys_def)
qed

lemma reg_index_member:
  "k \<in> set (map fst r) \<Longrightarrow> snd (reg_index k r) = r"
  by (cases "map_of r k") (auto simp: reg_index_def map_of_eq_None_iff)

lemma spawn_loop_shaders:
  "''PlainShader'' \<in> set (map fst (mShaders s)) \<Longrightarrow>
     mShaders (spawn_loop rand ord n i s) = mShaders s"
proof (induction rand ord n i s rule: spawn_loop.induct)
  case (1 rand ord n i s)
  have e: "mShaders (spawn_one rand ord i s) = mShaders s"
    using "1.prems" by (simp add: reg_index_member)
  show ?case
  proof (cases "i < n")
    case True
    with "1.IH" [OF True] "1.prems" e show ?thesis
      by (simp add: spawn_loop.simps [of rand ord n i s])
  next
    case False
    then show ?thesis by (simp add: spawn_loop.simps [of rand ord n i s])
  qed
qed

lemma step_running:
  assumes "running pf s"
  shows "\<exists>s'. step p pf ev s = Some s' \<and> running pf s'"
proof (cases ev)
  case (Expose ok ex)
  let ?s' = "(if ex then emit [TimerStart16, ClockStart] (emit [GlViewport] s) else emit [GlViewport] s)"
  have "exposeEvent (objects_order pf) ok ex s = Some ?s'"
    using assms by (intro exposeEvent_initialized) (simp_all add: running_def)
  moreover have "running pf ?s'" using assms by (simp add: running_def ready_def)
  ultimately show ?thesis using Expose by (simp add: step_def)
next
  case (Tick inp)
  from assms have r: "ready (shaders_order pf) (objects_order pf) s" by (simp add: running_def)
  let ?s1 = "calculateFramerate_every p (nsecsElapsed inp) s"
  have r1: "ready (shaders_order pf) (objects_order pf) ?s1" using r by (simp add: ready_calculateFramerate)
  from draw_frame_total [OF r1, of inp] obtain s' where
    d: "draw_frame (shaders_order pf) (objects_order pf) inp ?s1 = Some s'" by auto
  note f = draw_frame_fields [OF d]
  have "running pf s'"
    using assms draw_frame_ready [OF d r1] draw_frame_glFunctions [OF d] f(1,2,4)
    by (simp add: running_def)
  with d Tick show ?thesis by (simp add: step_def render_every_def)
next
  case (KeyPress k)
  show ?thesis
  proof (cases "k = Key_I")
    case False
    have "\<exists>s'. keyPressEvent (lib_rand pf) (spawn_args pf) k s = Some s'"
      using assms by (simp add: keyPressEvent_def Let_def running_def)
    then obtain s' where s': "keyPressEvent (lib_rand pf) (spawn_args pf) k s = Some s'" by auto
    note f = keyPressEvent_other_fields [OF s' False]
    have "running pf s'"
      using assms f(1,2,3,4,5) keyPressEvent_other_glFunctions [OF s' False]
      by (simp add: running_def ready_def)
    with s' KeyPress show ?thesis by (simp add: step_def)
  next
    case True
    show ?thesis
    proof (cases "ActivateRain s")
      case on: True
      have "running pf (s\<lparr>ActivateRain := False, mRainDrops := []\<rparr>)"
        using assms by (simp add: running_def ready_def)
      with on True KeyPress show ?thesis by (simp add: step_def keyPressEvent_rain_off)
    next
      case off: False
      let ?l = "spawn_loop (lib_rand pf) (spawn_args pf) (mRainAmount s) 0 s"
      have sh: "mShaders ?l = mShaders s"
        using assms by (intro spawn_loop_shaders) (simp add: running_def)
      have "running pf (?l\<lparr>ActivateRain := True\<rparr>)"
        using assms sh by (simp add: running_def ready_def spawn_loop_fields spawn_loop_glFunctions)
      with off True KeyPress show ?thesis by (simp add: step_def keyPressEvent_rain_on)
    qed
  qed
qed

lemma run_running:
  assumes "running pf s"
  shows "\<exists>s'. run p pf evs s = Some s' \<and> running pf s'"
  using assms
proof (induction evs arbitrary: s)
  case Nil
  then show ?case by simp
next
  case (Cons ev evs)
  from step_running [OF Cons.prems, of p ev] obtain s1 where
    "step p pf ev s = Some s1" "running pf s1" by auto
  with Cons.IH [of s1] show ?case by simp
qed

lemma started_running: "running example_platform (started key_order)"
proof -
  from started_props [of key_order] obtain s1 where
    st: "started key_order = emit [TimerStart16, ClockStart] (emit [GlViewport] s1)"
    and p: "mInitialized s1" "mShaders s1 = shaders4"
    and i: "init key_order True example_window = Some s1"
    by auto
  have "mMainWindow s1" using init_fields(1) [OF i] by simp
  moreover have "glFunctions s1" using i by (rule init_succeeded(2))
  moreover have "''PlainShader'' \<in> set (map fst shaders4)"
    by (simp add: shaders4_def the_shaders_def)
  ultimately show ?thesis
    using started_key_order_ready p by (simp add: running_def st ready_def)
qed

lemma step_rain:
  assumes "step p pf ev s = Some s'" "0 < mRainAmount s" "ActivateRain s \<longleftrightarrow> mRainDrops s \<noteq> []"
  shows "(ActivateRain s' \<longleftrightarrow> mRainDrops s' \<noteq> []) \<and> mRainAmount s' = mRainAmount s \<and>
         (ev \<noteq> KeyPress Key_I \<longrightarrow>
            ActivateRain s' = ActivateRain s \<and> length (mRainDrops s') = length (mRainDrops s) \<and>
            prng s' = prng s)"
proof (cases ev)
  case (Expose ok ex)
  with assms(1) have "exposeEvent (objects_order pf) ok ex s = Some s'" by (simp add: step_def)
  from exposeEvent_fields [OF this] assms(3) Expose show ?thesis by simp
next
  case (Tick inp)
  with assms(1) have "render_every p (shaders_order pf) (objects_order pf) inp s = Some s'"
    by (simp add: step_def)
  from render_every_fields [OF this] assms(3) Tick show ?thesis
    by (metis length_0_conv)
next
  case (KeyPress k)
  with assms(1) have k: "keyPressEvent (lib_rand pf) (spawn_args pf) k s = Some s'"
    by (simp add: step_def)
  show ?thesis
  proof (cases "k = Key_I")
    case False
    from keyPressEvent_other_fields [OF k False] assms(3) show ?thesis by simp
  next
    case True
    show ?thesis
    proof (cases "ActivateRain s")
      case on: True
      with k True have "s' = s\<lparr>ActivateRain := False, mRainDrops := []\<rparr>"
        by (simp add: keyPressEvent_rain_off)
      then show ?thesis using True KeyPress by simp
    next
      case off: False
      let ?l = "spawn_loop (lib_rand pf) (spawn_args pf) (mRainAmount s) 0 s"
      from k True off have s': "s' = ?l\<lparr>ActivateRain := True\<rparr>"
        by (simp add: keyPressEvent_rain_on)
      have "length (mRainDrops ?l) = length (mRainDrops s) + nat (mRainAmount s)"
        by (simp add: spawn_loop_drops)
      then have "mRainDrops ?l \<noteq> []" using assms(2) by auto
      then show ?thesis using True KeyPress by (simp add: s' spawn_loop_fields)
    qed
  qed
qed


lemma run_rain:
  assumes "run p pf evs s = Some s'" "0 < mRainAmount s" "ActivateRain s \<longleftrightarrow> mRainDrops s \<noteq> []"
  shows "(ActivateRain s' \<longleftrightarrow> mRainDrops s' \<noteq> []) \<and> mRainAmount s' = mRainAmount s \<and>
         (KeyPress Key_I \<notin> set evs \<longrightarrow>
            ActivateRain s' = ActivateRain s \<and> length (mRainDrops s') = length (mRainDrops s) \<and>
            prng s' = prng s)"
  using assms
proof (induction evs arbitrary: s)
  case Nil
  then show ?case by simp
next
  case (Cons ev evs)
  from Cons.prems(1) obtain s1 where 1: "step p pf ev s = Some s1" and 2: "run p pf evs s1 = Some s'"
    by (auto split: option.splits)
  from step_rain [OF 1 Cons.prems(2,3)]
  have a: "ActivateRain s1 \<longleftrightarrow> mRainDrops s1 \<noteq> []" and b: "mRainAmount s1 = mRainAmount s"
    and c: "ev \<noteq> KeyPress Key_I \<longrightarrow>
            ActivateRain s1 = ActivateRain s \<and> length (mRainDrops s1) = length (mRainDrops s) \<and>
            prng s1 = prng s"
    by blast+
  from Cons.IH [OF 2 _ a] Cons.prems(2) b c show ?case by auto
qed

text \<open>
  Claim C9. With a positive \<open>mRainAmount\<close>, every run of expose notifications, frames and
  key presses keeps the rain flag true exactly when \<open>mRainDrops\<close> is not empty, and
  leaves \<open>mRainAmount\<close> as it is; a run without a press of I changes neither the flag nor
  the length of \<open>mRainDrops\<close>.
\<close>

theorem rain_flag_invariant:
  assumes "0 < mRainAmount s" "ActivateRain s \<longleftrightarrow> mRainDrops s \<noteq> []"
    and "run p pf evs s = Some s'"
  shows "(ActivateRain s' \<longleftrightarrow> mRainDrops s' \<noteq> []) \<and> mRainAmount s' = mRainAmount s \<and>
         (KeyPress Key_I \<notin> set evs \<longrightarrow>
            ActivateRain s' = ActivateRain s \<and> length (mRainDrops s') = length (mRainDrops s))"
  using run_rain [OF assms(3,1,2)] by blast

lemma started_fields:
  "mRainAmount (started key_order) = 2" "ActivateRain (started key_order) = False"
  "mRainDrops (started key_order) = []" "prng (started key_order) = 1"
  "CamPos (started key_order) = (0, 7, 3)"
proof -
  from started_props [of key_order] obtain s1 where
    st: "started key_order = emit [TimerStart16, ClockStart] (emit [GlViewport] s1)"
    and i: "init key_order True example_window = Some s1"
    by auto
  note f = init_fields [OF i]
  show "mRainAmount (started key_order) = 2" "ActivateRain (started key_order) = False"
  "mRainDrops (started key_order) = []" "prng (started key_order) = 1"
  "CamPos (started key_order) = (0, 7, 3)"
    using f by (simp_all add: st)
qed

theorem rain_flag_invariant_witness:
  "0 < mRainAmount (started key_order) \<and>
   (ActivateRain (started key_order) \<longleftrightarrow> mRainDrops (started key_order) \<noteq> []) \<and>
   (\<exists>s'. run 30 example_platform
            [Tick example_frame, KeyPress Key_I, Tick example_frame, KeyPress Key_W,
             Expose True True, KeyPress Key_I, KeyPress Key_I] (started key_order) = Some s' \<and>
      (ActivateRain s' \<longleftrightarrow> mRainDrops s' \<noteq> []) \<and> mRainAmount s' = 2) \<and>
   (\<exists>s'. run 30 example_platform
            [Tick example_frame, KeyPress Key_W, Expose True True] (started key_order) = Some s' \<and>
      \<not> ActivateRain s' \<and> length (mRainDrops s') = 0)"
proof -
  let ?e1 = "[Tick example_frame, KeyPress Key_I, Tick example_frame, KeyPress Key_W,
             Expose True True, KeyPress Key_I, KeyPress Key_I]"
  let ?e2 = "[Tick example_frame, KeyPress Key_W, Expose True True]"
  from run_running [OF started_running, of 30 ?e1] obtain s1 where
    1: "run 30 example_platform ?e1 (started key_order) = Some s1" by auto
  from run_running [OF started_running, of 30 ?e2] obtain s2 where
    2: "run 30 example_platform ?e2 (started key_order) = Some s2" by auto
  have a: "0 < mRainAmount (started key_order)"
    "ActivateRain (started key_order) \<longleftrightarrow> mRainDrops (started key_order) \<noteq> []"
    by (simp_all add: started_fields)
  from rain_flag_invariant [OF a 1] rain_flag_invariant [OF a 2] 1 2 a
  show ?thesis by (simp add: started_fields)
qed

lemma step_quiet:
  assumes "step p pf ev s = Some s'" "ev \<noteq> KeyPress Key_I"
  shows "ActivateRain s' = ActivateRain s \<and> length (mRainDrops s') = length (mRainDrops s) \<and>
         mRainAmount s' = mRainAmount s \<and> prng s' = prng s"
proof (cases ev)
  case (Expose ok ex)
  with assms(1) have "exposeEvent (objects_order pf) ok ex s = Some s'" by (simp add: step_def)
  from exposeEvent_fields [OF this] show ?thesis by simp
next
  case (Tick inp)
  with assms(1) have "render_every p (shaders_order pf) (objects_order pf) inp s = Some s'"
    by (simp add: step_def)
  from render_every_fields [OF this] show ?thesis by simp
next
  case (KeyPress k)
  with assms have "keyPressEvent (lib_rand pf) (spawn_args pf) k s = Some s'" "k \<noteq> Key_I"
    by (simp_all add: step_def)
  from keyPressEvent_other_fields [OF this] show ?thesis by simp
qed

lemma run_quiet:
  assumes "run p pf evs s = Some s'" "KeyPress Key_I \<notin> set evs"
  shows "ActivateRain s' = ActivateRain s \<and> length (mRainDrops s') = length (mRainDrops s) \<and>
         mRainAmount s' = mRainAmount s \<and> prng s' = prng s"
  using assms
proof (induction evs arbitrary: s)
  case Nil
  then show ?case by simp
next
  case (Cons ev evs)
  from Cons.prems(1) obtain s1 where 1: "step p pf ev s = Some s1" and 2: "run p pf evs s1 = Some s'"
    by (auto split: option.splits)
  from Cons.prems(2) have "ev \<noteq> KeyPress Key_I" "KeyPress Key_I \<notin> set evs" by auto
  with step_quiet [OF 1] Cons.IH [OF 2] show ?case by simp
qed

lemma rain_positions_determined:
  assumes "\<not> ActivateRain s" "mRainDrops s = []"
  shows "\<exists>t. keyPressEvent rand ord Key_I s = Some t \<and>
           rain_positions t = spawned_positions rand ord (nat (mRainAmount s)) (prng s) \<and>
           (\<forall>q \<in> set (rain_positions t).
              - 10 \<le> vx q \<and> vx q \<le> 9 \<and> vy q = 5 \<and> - 10 \<le> vz q \<and> vz q \<le> 9)"
proof -
  from rain_positions_spawned [OF assms(2,1), of rand ord] obtain t where
    t: "keyPressEvent rand ord Key_I s = Some t"
    "rain_positions t = spawned_positions rand ord (nat (mRainAmount s)) (prng s)"
    by auto
  have "\<forall>q \<in> set (rain_positions t).
              - 10 \<le> vx q \<and> vx q \<le> 9 \<and> vy q = 5 \<and> - 10 \<le> vz q \<and> vz q \<le> 9"
    unfolding t(2) by (intro ballI) (rule spawned_positions_bounds)
  with t show ?thesis by simp
qed

text \<open>
  Claim C10. The positions that the toggle spawns are a function of the state of the C
  library's generator and of \<open>mRainAmount\<close> alone (for one \<open>rand\<close> and one order of
  evaluating the two arguments): two windows without rain that agree on these two spawn the
  same positions, whatever else differs, each with X and Z in \<open>[-10, 9]\<close> and height 5.
  Nothing in this file seeds the generator or draws from it outside the toggle, so in two
  runs of the program from the same generator state, up to the first press of I, that
  press spawns the same positions, whatever the events before it were.
\<close>

theorem rain_positions_deterministic:
  "(\<not> ActivateRain s1 \<and> mRainDrops s1 = [] \<and> \<not> ActivateRain s2 \<and> mRainDrops s2 = [] \<and>
    prng s1 = prng s2 \<and> mRainAmount s1 = mRainAmount s2 \<longrightarrow>
      (\<exists>t1 t2. keyPressEvent rand ord Key_I s1 = Some t1 \<and> keyPressEvent rand ord Key_I s2 = Some t2 \<and>
         rain_positions t1 = rain_positions t2 \<and>
         (\<forall>q \<in> set (rain_positions t1).
            - 10 \<le> vx q \<and> vx q \<le> 9 \<and> vy q = 5 \<and> - 10 \<le> vz q \<and> vz q \<le> 9))) \<and>
   (run p pf es1 (RenderWindow mw1 cp1 False n g) = Some u1 \<and>
    run q pf es2 (RenderWindow mw2 cp2 False n g) = Some u2 \<and>
    KeyPress Key_I \<notin> set es1 \<and> KeyPress Key_I \<notin> set es2 \<longrightarrow>
      (\<exists>t1 t2. keyPressEvent (lib_rand pf) (spawn_args pf) Key_I u1 = Some t1 \<and>
         keyPressEvent (lib_rand pf) (spawn_args pf) Key_I u2 = Some t2 \<and>
         rain_positions t1 = rain_positions t2 \<and>
         rain_positions t1 = spawned_positions (lib_rand pf) (spawn_args pf) (nat n) g))"
proof (intro conjI impI)
  assume a: "\<not> ActivateRain s1 \<and> mRainDrops s1 = [] \<and> \<not> ActivateRain s2 \<and> mRainDrops s2 = [] \<and>
    prng s1 = prng s2 \<and> mRainAmount s1 = mRainAmount s2"
  from rain_positions_determined [of s1 rand ord] a obtain t1 where
    1: "keyPressEvent rand ord Key_I s1 = Some t1"
       "rain_positions t1 = spawned_positions rand ord (nat (mRainAmount s1)) (prng s1)"
       "\<forall>q \<in> set (rain_positions t1).
              - 10 \<le> vx q \<and> vx q \<le> 9 \<and> vy q = 5 \<and> - 10 \<le> vz q \<and> vz q \<le> 9"
    by auto
  from rain_positions_determined [of s2 rand ord] a obtain t2 where
    2: "keyPressEvent rand ord Key_I s2 = Some t2"
       "rain_positions t2 = spawned_positions rand ord (nat (mRainAmount s2)) (prng s2)"
    by auto
  from 1 2 a show "\<exists>t1 t2. keyPressEvent rand ord Key_I s1 = Some t1 \<and> keyPressEvent rand ord Key_I s2 = Some t2 \<and>
         rain_positions t1 = rain_positions t2 \<and>
         (\<forall>q \<in> set (rain_positions t1).
            - 10 \<le> vx q \<and> vx q \<le> 9 \<and> vy q = 5 \<and> - 10 \<le> vz q \<and> vz q \<le> 9)"
    by simp
next
  assume a: "run p pf es1 (RenderWindow mw1 cp1 False n g) = Some u1 \<and>
    run q pf es2 (RenderWindow mw2 cp2 False n g) = Some u2 \<and>
    KeyPress Key_I \<notin> set es1 \<and> KeyPress Key_I \<notin> set es2"
  from a run_quiet [of p pf es1 "RenderWindow mw1 cp1 False n g" u1]
  have u1: "\<not> ActivateRain u1" "mRainDrops u1 = []" "mRainAmount u1 = n" "prng u1 = g"
    by (simp_all add: RenderWindow_def)
  from a run_quiet [of q pf es2 "RenderWindow mw2 cp2 False n g" u2]
  have u2: "\<not> ActivateRain u2" "mRainDrops u2 = []" "mRainAmount u2 = n" "prng u2 = g"
    by (simp_all add: RenderWindow_def)
  from rain_positions_determined [OF u1(1,2), of "lib_rand pf" "spawn_args pf"]
       rain_positions_determined [OF u2(1,2), of "lib_rand pf" "spawn_args pf"] u1 u2
  show "\<exists>t1 t2. keyPressEvent (lib_rand pf) (spawn_args pf) Key_I u1 = Some t1 \<and>
         keyPressEvent (lib_rand pf) (spawn_args pf) Key_I u2 = Some t2 \<and>
         rain_positions t1 = rain_positions t2 \<and>
         rain_positions t1 = spawned_positions (lib_rand pf) (spawn_args pf) (nat n) g"
    by auto
qed

lemma run_from_example_window:
  "\<exists>u. run p example_platform (Expose True True # evs) example_window = Some u \<and>
       running example_platform u"
proof -
  have "step p example_platform (Expose True True) example_window = Some (started key_order)"
    using started_props [of key_order] by (auto simp: step_def)
  with run_running [OF started_running, of p evs] show ?thesis by simp
qed

theorem rain_positions_deterministic_witness:
  "\<not> ActivateRain example_window \<and> mRainDrops example_window = [] \<and>
   \<not> ActivateRain (started key_order) \<and> mRainDrops (started key_order) = [] \<and>
   prng example_window = prng (started key_order) \<and>
   mRainAmount example_window = mRainAmount (started key_order) \<and>
   (\<exists>t1 t2. keyPressEvent c_rand X_first Key_I example_window = Some t1 \<and>
      keyPressEvent c_rand X_first Key_I (started key_order) = Some t2 \<and>
      rain_positions t1 = rain_positions t2) \<and>
   (\<exists>u1 u2 t1 t2.
      run 30 example_platform [Expose True True, Tick example_frame, KeyPress Key_W]
        (RenderWindow True (0, 7, 3) False 2 1) = Some u1 \<and>
      run 1 example_platform [Expose True True, KeyPress Key_Q]
        (RenderWindow True (0, 7, 3) False 2 1) = Some u2 \<and>
      keyPressEvent c_rand X_first Key_I u1 = Some t1 \<and>
      keyPressEvent c_rand X_first Key_I u2 = Some t2 \<and>
      rain_positions t1 = [(8, 5, 8), (3, 5, 5)] \<and> rain_positions t2 = [(8, 5, 8), (3, 5, 5)])"
proof -
  let ?e1 = "[Tick example_frame, KeyPress Key_W]"
  let ?e2 = "[KeyPress Key_Q]"
  from run_from_example_window [of 30 ?e1] obtain u1 where
    1: "run 30 example_platform (Expose True True # ?e1) (RenderWindow True (0, 7, 3) False 2 1) = Some u1"
    by (auto simp: example_window_def)
  from run_from_example_window [of 1 ?e2] obtain u2 where
    2: "run 1 example_platform (Expose True True # ?e2) (RenderWindow True (0, 7, 3) False 2 1) = Some u2"
    by (auto simp: example_window_def)
  have a: "\<not> ActivateRain example_window \<and> mRainDrops example_window = [] \<and>
   \<not> ActivateRain (started key_order) \<and> mRainDrops (started key_order) = [] \<and>
   prng example_window = prng (started key_order) \<and>
   mRainAmount example_window = mRainAmount (started key_order)"
    by (simp add: started_fields)
  from rain_positions_deterministic
         [of example_window "started key_order" c_rand X_first 30 example_platform
             "Expose True True # ?e1" True "(0, 7, 3)" 2 1 u1 1 "Expose True True # ?e2" True "(0, 7, 3)" u2]
       a 1 2
  show ?thesis by (auto simp: spawned_positions_2)
qed

subsection \<open>The movement keys\<close>

declare ulp.simps [simp del]

lemma f32_exact:
  assumes "\<bar>n\<bar> \<le> 16777216"
  shows "f32 n = n"
proof (cases "\<bar>n\<bar> < 16777216")
  case True
  then have "ulp (nat \<bar>n\<bar>) = 1" by (simp add: ulp.simps [of "nat \<bar>n\<bar>"])
  then have "f32 n = sgn n * \<bar>n\<bar>" by (simp add: f32_def Let_def)
  then show ?thesis by (simp add: sgn_mult_abs)
next
  case False
  with assms have m: "nat \<bar>n\<bar> = 16777216" by simp
  have "ulp 16777216 = 2" by (simp add: ulp.simps [of 16777216] ulp.simps [of 8388608])
  with m have "f32 n = sgn n * 16777216" by (simp add: f32_def Let_def)
  moreover have "\<bar>n\<bar> = 16777216" using m by linarith
  ultimately show ?thesis by (metis sgn_mult_abs)
qed

lemma f32_round_up: "f32 16777217 = 16777216"
proof -
  have "ulp 16777217 = 2" by (simp add: ulp.simps [of 16777217] ulp.simps [of 8388608])
  then show ?thesis by (simp add: f32_def Let_def)
qed

lemma keyPressEvent_movement:
  assumes "movement k" "within 16777215 (CamPos s)"
  shows "\<exists>s'. keyPressEvent rand ord k s = Some s' \<and> CamPos s' = vadd (CamPos s) (key_step k)"
proof -
  obtain x y z where c: "CamPos s = (x, y, z)" by (cases "CamPos s")
  with assms(2) have b: "\<bar>x\<bar> \<le> 16777215" "\<bar>y\<bar> \<le> 16777215" "\<bar>z\<bar> \<le> 16777215"
    by (simp_all add: within_def)
  have e: "f32 (x + 1) = x + 1" "f32 (x - 1) = x - 1" "f32 (y + 1) = y + 1" "f32 (y - 1) = y - 1"
    "f32 (z + 1) = z + 1" "f32 (z - 1) = z - 1"
    using b by (simp_all add: f32_exact)
  from assms(1) consider "k = Key_W" | "k = Key_S" | "k = Key_A" | "k = Key_D" | "k = Key_Q" | "k = Key_E"
    by (auto simp: movement_def)
  then show ?thesis
    by cases (simp_all add: keyPressEvent_def c e vadd_def)
qed

lemma steps_Nil [simp]: "steps [] = (0, 0, 0)"
  by (simp add: steps_def)

lemma steps_Cons: "steps (k # ks) = vadd (key_step k) (steps ks)"
  by (simp add: steps_def vadd_def)

lemma vadd_assoc: "vadd (vadd a b) c = vadd a (vadd b c)"
  by (simp add: vadd_def)

lemma vadd_zero [simp]: "vadd a (0, 0, 0) = a"
  by (cases a) (simp add: vadd_def)

lemma within_step:
  assumes "movement k" "within b v"
  shows "within (b + 1) (vadd v (key_step k))"
proof -
  obtain x y z where "v = (x, y, z)" by (cases v)
  with assms show ?thesis
    by (auto simp: movement_def within_def vadd_def)
qed

lemma within_mono: "within b v \<Longrightarrow> b \<le> c \<Longrightarrow> within c v"
  by (auto simp: within_def)

lemma keys_run:
  assumes "list_all movement ks" "within (16777216 - int (length ks)) (CamPos s)"
  shows "\<exists>s'. run p pf (map KeyPress ks) s = Some s' \<and> CamPos s' = vadd (CamPos s) (steps ks)"
  using assms
proof (induction ks arbitrary: s)
  case Nil
  then show ?case by simp
next
  case (Cons k ks)
  from Cons.prems have m: "movement k" "list_all movement ks" by simp_all
  have "within 16777215 (CamPos s)"
    using Cons.prems(2) by (rule within_mono) simp
  from keyPressEvent_movement [OF m(1) this, of "lib_rand pf" "spawn_args pf"]
  obtain s1 where 1: "keyPressEvent (lib_rand pf) (spawn_args pf) k s = Some s1"
    and c1: "CamPos s1 = vadd (CamPos s) (key_step k)" by auto
  have "within (16777216 - int (length (k # ks)) + 1) (vadd (CamPos s) (key_step k))"
    using m(1) Cons.prems(2) by (rule within_step)
  then have "within (16777216 - int (length ks)) (CamPos s1)" by (simp add: c1)
  from Cons.IH [OF m(2) this] obtain s' where
    "run p pf (map KeyPress ks) s1 = Some s'" "CamPos s' = vadd (CamPos s1) (steps ks)" by auto
  with 1 c1 show ?case by (simp add: step_def steps_Cons vadd_assoc)
qed

lemma steps_mset:
  assumes "mset ks' = mset ks"
  shows "steps ks' = steps ks"
proof -
  have "sum_list (map f ks') = sum_list (map f ks)" for f :: "key \<Rightarrow> int"
  proof -
    have "sum_mset (mset (map f ks')) = sum_mset (mset (map f ks))"
      using assms by simp
    then show ?thesis by (simp only: sum_mset_sum_list)
  qed
  then show ?thesis by (simp add: steps_def)
qed

text \<open>
  Claim C5 (amended). For a sequence of \<open>n\<close> movement keys pressed with the camera at
  integer coordinates of magnitude at most \<open>2^24 - n\<close> (no step then leaves the range in
  which the 32-bit floats of \<open>CamPos\<close> hold every integer), the position afterwards is the
  position before plus the sum of the unit steps (W and S on Z, A and D on X, Q and E on
  Y), and every reordering of the sequence ends at the same position.
\<close>

theorem camera_accumulates_unit_steps:
  assumes "list_all movement ks" "within (16777216 - int (length ks)) (CamPos s)"
  shows "\<exists>s'. run p pf (map KeyPress ks) s = Some s' \<and>
           CamPos s' = vadd (CamPos s) (steps ks) \<and>
           (\<forall>ks'. mset ks' = mset ks \<longrightarrow>
              map_option CamPos (run p pf (map KeyPress ks') s) = Some (CamPos s'))"
proof -
  from keys_run [OF assms, of p pf] obtain s' where
    r: "run p pf (map KeyPress ks) s = Some s'" and c: "CamPos s' = vadd (CamPos s) (steps ks)"
    by auto
  have "map_option CamPos (run p pf (map KeyPress ks') s) = Some (CamPos s')"
    if eq: "mset ks' = mset ks" for ks'
  proof -
    have "set ks' = set ks" using eq by (rule mset_eq_setD)
    then have 1: "list_all movement ks'" using assms(1) by (simp add: list_all_iff)
    have "length ks' = length ks" using eq by (rule mset_eq_length)
    then have 2: "within (16777216 - int (length ks')) (CamPos s)" using assms(2) by simp
    from keys_run [OF 1 2, of p pf] steps_mset [OF eq] c show ?thesis by auto
  qed
  with r c show ?thesis by simp
qed

theorem camera_accumulates_unit_steps_witness:
  "list_all movement [Key_W, Key_A, Key_E, Key_W, Key_S, Key_D, Key_D, Key_Q] \<and>
   within (16777216 - int (length [Key_W, Key_A, Key_E, Key_W, Key_S, Key_D, Key_D, Key_Q]))
     (CamPos (started key_order)) \<and>
   (\<exists>s'. run 30 example_platform
            (map KeyPress [Key_W, Key_A, Key_E, Key_W, Key_S, Key_D, Key_D, Key_Q])
            (started key_order) = Some s' \<and> CamPos s' = (1, 7, 4) \<and>
      map_option CamPos
        (run 30 example_platform
           (map KeyPress [Key_Q, Key_D, Key_D, Key_S, Key_W, Key_E, Key_A, Key_W])
           (started key_order)) = Some (1, 7, 4))"
proof -
  let ?ks = "[Key_W, Key_A, Key_E, Key_W, Key_S, Key_D, Key_D, Key_Q]"
  let ?ks' = "[Key_Q, Key_D, Key_D, Key_S, Key_W, Key_E, Key_A, Key_W]"
  have 1: "list_all movement ?ks" by (simp add: movement_def)
  have 2: "within (16777216 - int (length ?ks)) (CamPos (started key_order))"
    by (simp add: started_fields within_def)
  have 3: "mset ?ks' = mset ?ks" by simp
  have 4: "vadd (CamPos (started key_order)) (steps ?ks) = (1, 7, 4)"
    by (simp add: started_fields steps_def vadd_def)
  from camera_accumulates_unit_steps [OF 1 2, of 30 example_platform]
  obtain s' where r: "run 30 example_platform (map KeyPress ?ks) (started key_order) = Some s'"
    and c: "CamPos s' = vadd (CamPos (started key_order)) (steps ?ks)"
    and a: "\<forall>ks'. mset ks' = mset ?ks \<longrightarrow>
              map_option CamPos (run 30 example_platform (map KeyPress ks') (started key_order)) =
                Some (CamPos s')"
    by blast
  from a 3 have "map_option CamPos (run 30 example_platform (map KeyPress ?ks') (started key_order)) =
      Some (CamPos s')" by blast
  with r c 4 have "run 30 example_platform (map KeyPress ?ks) (started key_order) = Some s' \<and>
      CamPos s' = (1, 7, 4) \<and>
      map_option CamPos (run 30 example_platform (map KeyPress ?ks') (started key_order)) = Some (1, 7, 4)"
    by (simp only:) 
  then have "\<exists>s'. run 30 example_platform (map KeyPress ?ks) (started key_order) = Some s' \<and>
      CamPos s' = (1, 7, 4) \<and>
      map_option CamPos (run 30 example_platform (map KeyPress ?ks') (started key_order)) = Some (1, 7, 4)"
    by (rule exI)
  with 1 2 show ?thesis by (intro conjI)
qed

theorem camera_rounding_counterexample:
  "map_option CamPos
     (run 30 example_platform [KeyPress Key_W, KeyPress Key_S]
        (RenderWindow True (0, 0, 16777216) False 0 1)) = Some (0, 0, 16777215) \<and>
   map_option CamPos
     (run 30 example_platform [KeyPress Key_S, KeyPress Key_W]
        (RenderWindow True (0, 0, 16777216) False 0 1)) = Some (0, 0, 16777216)"
  by (simp add: step_def keyPressEvent_def RenderWindow_def f32_round_up f32_exact)

subsection \<open>The frame counter as an observer\<close>

lemma unobserved_fields [simp]:
  "mInitialized (unobserved s) = mInitialized s"
  "mMainWindow (unobserved s) = mMainWindow s"
  "mCamera (unobserved s) = mCamera s"
  "mShaders (unobserved s) = mShaders s"
  "mMap (unobserved s) = mMap s"
  "CamPos (unobserved s) = CamPos s"
  "ActivateRain (unobserved s) = ActivateRain s"
  "mRainAmount (unobserved s) = mRainAmount s"
  "mRainDrops (unobserved s) = mRainDrops s"
  "prng (unobserved s) = prng s"
  "frameCount (unobserved s) = 0"
  "trace (unobserved s) = filter (\<lambda>c. \<not> is_message c) (trace s)"
  by (simp_all add: unobserved_def)

lemma unobserved_glFunctions [simp]: "glFunctions (unobserved s) = glFunctions s"
  by (simp add: unobserved_def)

lemma unobserved_update:
  "unobserved (s\<lparr>mInitialized := a\<rparr>) = (unobserved s)\<lparr>mInitialized := a\<rparr>"
  "unobserved (s\<lparr>mCamera := b\<rparr>) = (unobserved s)\<lparr>mCamera := b\<rparr>"
  "unobserved (s\<lparr>mShaders := sh\<rparr>) = (unobserved s)\<lparr>mShaders := sh\<rparr>"
  "unobserved (s\<lparr>mMap := m\<rparr>) = (unobserved s)\<lparr>mMap := m\<rparr>"
  "unobserved (s\<lparr>CamPos := v\<rparr>) = (unobserved s)\<lparr>CamPos := v\<rparr>"
  "unobserved (s\<lparr>ActivateRain := r\<rparr>) = (unobserved s)\<lparr>ActivateRain := r\<rparr>"
  "unobserved (s\<lparr>mRainDrops := ds\<rparr>) = (unobserved s)\<lparr>mRainDrops := ds\<rparr>"
  "unobserved (s\<lparr>prng := g\<rparr>) = (unobserved s)\<lparr>prng := g\<rparr>"
  "unobserved (s\<lparr>glFunctions := f\<rparr>) = (unobserved s)\<lparr>glFunctions := f\<rparr>"
  by (simp_all add: unobserved_def)

lemma unobserved_emit:
  "unobserved (emit cs s) = emit (filter (\<lambda>c. \<not> is_message c) cs) (unobserved s)"
  by (simp add: unobserved_def emit_def)

lemma unobserved_calculateFramerate:
  "unobserved (calculateFramerate_every p t s) = unobserved s"
  by (simp add: calculateFramerate_every_def Let_def unobserved_def emit_def is_message_def)

lemma quiet_objects_trace: "filter (\<lambda>c. \<not> is_message c) (objects_trace cs ks) = objects_trace cs ks"
  by (induction ks) (auto simp: objects_trace_def is_message_def)

lemma quiet_shader_loop:
  "shader_loop pos r ks = Some tr \<Longrightarrow> filter (\<lambda>c. \<not> is_message c) tr = tr"
  by (induction ks arbitrary: tr)
     (auto split: option.splits simp: shader_calls_def is_message_def)

lemma for_each_object_unobserved:
  "for_each_object arr cs (unobserved s) = map_option unobserved (for_each_object arr cs s)"
proof (cases "visit_all cs (reg_keys arr (mMap s)) (mMap s, [])")
  case None
  then show ?thesis by (simp add: for_each_object_def)
next
  case (Some a)
  obtain r tr where a: "a = (r, tr)" by (cases a)
  from visit_all_trace [OF Some [unfolded a]] have "tr = objects_trace cs (reg_keys arr (mMap s))"
    by simp
  then have "filter (\<lambda>c. \<not> is_message c) tr = tr" by (simp add: quiet_objects_trace)
  with Some a show ?thesis
    by (simp add: for_each_object_def unobserved_emit unobserved_update)
qed

lemma rain_loop_unobserved: "rain_loop (unobserved s) = unobserved (rain_loop s)"
proof -
  have "filter (\<lambda>c. \<not> is_message c)
          (concat (map (\<lambda>i. map (ObjCall (RainDrop i)) rain_calls) is)) =
        concat (map (\<lambda>i. map (ObjCall (RainDrop i)) rain_calls) is)" for "is"
    by (induction "is") (auto simp: is_message_def rain_calls_def)
  then show ?thesis
    by (simp add: rain_loop_def unobserved_emit unobserved_update)
qed

lemma emit_unobserved:
  "filter (\<lambda>c. \<not> is_message c) cs = cs \<Longrightarrow> emit cs (unobserved s) = unobserved (emit cs s)"
  by (simp add: unobserved_emit)

lemma quiet_frame_head:
  "filter (\<lambda>c. \<not> is_message c) (frame_head inp v) = frame_head inp v"
  by (simp add: frame_head_def is_message_def)

lemma draw_frame_eq:
  assumes "mCamera s" "reg_index ''Ball'' (mMap s) = (Some ob, m)"
    and "shader_loop (camera_position inp) (mShaders s) (reg_keys arrS (mShaders s)) = Some tr"
  shows "draw_frame arrS arrM inp s =
     (case for_each_object arrM [OUpdateTransform, ODraw]
             (if ActivateRain s
              then rain_loop (emit (frame_head inp (CamPos s) @ tr)
                                (s\<lparr>glFunctions := True,
                                   mMap := reg_update ''Ball'' (send OGetPosition ob) m\<rparr>))
              else emit (frame_head inp (CamPos s) @ tr)
                     (s\<lparr>glFunctions := True,
                        mMap := reg_update ''Ball'' (send OGetPosition ob) m\<rparr>)) of
        None \<Rightarrow> None
      | Some s7 \<Rightarrow> Some (emit [SwapBuffers] s7))"
  using assms by (simp add: draw_frame_def Let_def frame_head_def emit_def)

lemma draw_frame_unobserved:
  "draw_frame arrS arrM inp (unobserved s) = map_option unobserved (draw_frame arrS arrM inp s)"
proof (cases "mCamera s")
  case False
  then show ?thesis by (simp add: draw_frame_def)
next
  case cam: True
  obtain b m where bm: "reg_index ''Ball'' (mMap s) = (b, m)" by force
  show ?thesis
  proof (cases b)
    case None
    with cam bm show ?thesis by (simp add: draw_frame_def)
  next
    case (Some ob)
    show ?thesis
    proof (cases "shader_loop (camera_position inp) (mShaders s) (reg_keys arrS (mShaders s))")
      case None
      with cam bm Some show ?thesis by (simp add: draw_frame_def)
    next
      case tr: (Some tr)
      let ?x = "emit (frame_head inp (CamPos s) @ tr)
                  (s\<lparr>glFunctions := True, mMap := reg_update ''Ball'' (send OGetPosition ob) m\<rparr>)"
      let ?y = "(if ActivateRain s then rain_loop ?x else ?x)"
      have q: "filter (\<lambda>c. \<not> is_message c) (frame_head inp (CamPos s) @ tr) = frame_head inp (CamPos s) @ tr"
        using quiet_shader_loop [OF tr] by (simp add: quiet_frame_head)
      have 1: "draw_frame arrS arrM inp s =
                 (case for_each_object arrM [OUpdateTransform, ODraw] ?y of
                    None \<Rightarrow> None | Some s7 \<Rightarrow> Some (emit [SwapBuffers] s7))"
        using cam bm Some tr by (intro draw_frame_eq) simp_all
      have x: "emit (frame_head inp (CamPos s) @ tr)
                  ((unobserved s)\<lparr>glFunctions := True,
                     mMap := reg_update ''Ball'' (send OGetPosition ob) m\<rparr>) = unobserved ?x"
        using q by (simp only: unobserved_update [symmetric] emit_unobserved)
      have 2: "draw_frame arrS arrM inp (unobserved s) =
                 (case for_each_object arrM [OUpdateTransform, ODraw] (unobserved ?y) of
                    None \<Rightarrow> None | Some s7 \<Rightarrow> Some (emit [SwapBuffers] s7))"
        using draw_frame_eq [of "unobserved s" ob m inp arrS tr arrM] cam bm Some tr
        by (simp add: x rain_loop_unobserved)
      have sw: "emit [SwapBuffers] (unobserved s7) = unobserved (emit [SwapBuffers] s7)" for s7 :: "'a renderwindow"
        by (rule emit_unobserved) (simp add: is_message_def)
      show ?thesis
        unfolding 1 2 for_each_object_unobserved
        by (cases "for_each_object arrM [OUpdateTransform, ODraw] ?y") (simp_all add: sw)
    qed
  qed
qed

lemma spawn_one_unobserved:
  "spawn_one rand ord i (unobserved s) = unobserved (spawn_one rand ord i s)"
  by (simp add: spawn_one_def unobserved_def emit_def Let_def is_message_def split: prod.splits)

lemma spawn_loop_unobserved:
  "spawn_loop rand ord n i (unobserved s) = unobserved (spawn_loop rand ord n i s)"
proof (induction rand ord n i s rule: spawn_loop.induct)
  case (1 rand ord n i s)
  show ?case
  proof (cases "i < n")
    case True
    with "1.IH" [OF True] show ?thesis
      by (simp add: spawn_loop.simps [of rand ord n i] spawn_one_unobserved)
  next
    case False
    then show ?thesis by (simp add: spawn_loop.simps [of rand ord n i])
  qed
qed

lemma keyPressEvent_unobserved:
  "keyPressEvent rand ord k (unobserved s) = map_option unobserved (keyPressEvent rand ord k s)"
proof (cases "k = Key_I")
  case True
  show ?thesis
  proof (cases "ActivateRain s")
    case on: True
    with True show ?thesis
      by (simp add: keyPressEvent_rain_off unobserved_update)
  next
    case off: False
    with True show ?thesis
      by (simp add: keyPressEvent_rain_on spawn_loop_unobserved unobserved_update)
  qed
next
  case False
  then show ?thesis
    by (cases k) (simp_all add: keyPressEvent_def unobserved_update unobserved_emit is_message_def)
qed

lemma insert_shader_unobserved:
  "insert_shader e (unobserved s) = unobserved (insert_shader e s)"
  by (simp add: insert_shader_def unobserved_def emit_def is_message_def)

lemma foldl_insert_shader_unobserved:
  "foldl (\<lambda>s e. insert_shader e s) (unobserved s) es =
     unobserved (foldl (\<lambda>s e. insert_shader e s) s es)"
  by (induction es arbitrary: s) (simp_all add: insert_shader_unobserved)

lemma insert_object_unobserved:
  "insert_object k mk (unobserved s) = unobserved (insert_object k mk s)"
  by (simp add: insert_object_def unobserved_def emit_def is_message_def split: prod.splits)

lemma wire_ball_unobserved: "wire_ball (unobserved s) = unobserved (wire_ball s)"
proof -
  obtain b m1 where 1: "reg_index ''Ball'' (mMap s) = (b, m1)" by force
  show ?thesis
  proof (cases b)
    case None
    with 1 show ?thesis by (simp add: wire_ball_def unobserved_update)
  next
    case (Some ob)
    show ?thesis
    proof (cases "constructed ob")
      case (SurfaceMesh p)
      with 1 Some show ?thesis by (simp add: wire_ball_def unobserved_update)
    next
      case (RollingBall f p)
      obtain sf m2 where 2: "reg_index ''Surface'' m1 = (sf, m2)" by force
      from 1 2 Some RollingBall show ?thesis
        by (simp add: wire_ball_def Let_def unobserved_update unobserved_emit is_message_def)
    qed
  qed
qed

lemma init_setup_unobserved: "init_setup (unobserved s) = unobserved (init_setup s)"
  by (simp add: init_setup_def Let_def wire_ball_unobserved insert_object_unobserved
        foldl_insert_shader_unobserved emit_unobserved unobserved_update [symmetric] is_message_def)

lemma init_unobserved:
  "init arr ok (unobserved s) = map_option unobserved (init arr ok s)"
proof (cases ok)
  case False
  then show ?thesis by (simp add: init_def unobserved_emit is_message_def)
next
  case True
  let ?s1 = "emit [Connect_timeout_render, MakeCurrent] s"
  show ?thesis
    by (cases "for_each_object arr [OInit, OUpdateTransform] (init_setup ?s1)")
       (simp_all add: init_def True init_setup_unobserved for_each_object_unobserved
          emit_unobserved is_message_def)
qed

lemma exposeEvent_unobserved:
  "exposeEvent arr ok ex (unobserved s) = map_option unobserved (exposeEvent arr ok ex s)"
proof (cases "mInitialized s")
  case True
  then show ?thesis by (simp add: exposeEvent_def Let_def emit_unobserved is_message_def)
next
  case False
  then show ?thesis
    by (cases "init arr ok s")
       (simp_all add: exposeEvent_def Let_def init_unobserved emit_unobserved is_message_def)
qed

lemma render_every_unobserved:
  "map_option unobserved (render_every p arrS arrM inp s) = draw_frame arrS arrM inp (unobserved s)"
  by (simp add: render_every_def draw_frame_unobserved [symmetric] unobserved_calculateFramerate)

lemma step_unobserved:
  assumes "unobserved s = unobserved s'"
  shows "map_option unobserved (step p pf ev s) = map_option unobserved (step q pf ev s')"
proof (cases ev)
  case (Expose ok ex)
  then show ?thesis
    using assms by (simp add: step_def exposeEvent_unobserved [symmetric])
next
  case (Tick inp)
  then show ?thesis
    using assms by (simp add: step_def render_every_unobserved)
next
  case (KeyPress k)
  then show ?thesis
    using assms by (simp add: step_def keyPressEvent_unobserved [symmetric])
qed

lemma run_unobserved:
  assumes "unobserved s = unobserved s'"
  shows "map_option unobserved (run p pf evs s) = map_option unobserved (run q pf evs s')"
  using assms
proof (induction evs arbitrary: s s')
  case Nil
  then show ?case by simp
next
  case (Cons ev evs)
  note e = step_unobserved [OF Cons.prems, of p pf ev q]
  show ?case
  proof (cases "step p pf ev s")
    case None
    with e have "step q pf ev s' = None" by simp
    with None show ?thesis by simp
  next
    case (Some a)
    with e obtain b where b: "step q pf ev s' = Some b" and ab: "unobserved a = unobserved b"
      by (cases "step q pf ev s'") simp_all
    from Cons.IH [OF ab] Some b show ?thesis by simp
  qed
qed

text \<open>
  Claim C7. \<open>calculateFramerate\<close> changes nothing but its counter and the status bar: the
  camera, the registries, the rain flag and the drops stay as they are, and so do the
  calls made so far apart from the status messages. Hence two runs of the same events
  with different sampling periods end in states that differ at most in the counter and
  in the status messages shown; all other calls, in their order, are the same.
\<close>

theorem framerate_is_observer:
  "CamPos (calculateFramerate_every p t s) = CamPos s \<and>
   mCamera (calculateFramerate_every p t s) = mCamera s \<and>
   mShaders (calculateFramerate_every p t s) = mShaders s \<and>
   mMap (calculateFramerate_every p t s) = mMap s \<and>
   ActivateRain (calculateFramerate_every p t s) = ActivateRain s \<and>
   mRainDrops (calculateFramerate_every p t s) = mRainDrops s \<and>
   unobserved (calculateFramerate_every p t s) = unobserved s \<and>
   map_option unobserved (run p pf evs s) = map_option unobserved (run q pf evs s)"
  using run_unobserved [of s s p pf evs q] by (simp add: unobserved_calculateFramerate)

theorem framerate_is_observer_witness:
  "(\<exists>u. run 1 example_platform
           [Tick example_frame, KeyPress Key_I, Tick example_frame, KeyPress Key_W, Tick example_frame]
           (started key_order) = Some u) \<and>
   map_option unobserved
     (run 1 example_platform
        [Tick example_frame, KeyPress Key_I, Tick example_frame, KeyPress Key_W, Tick example_frame]
        (started key_order)) =
   map_option unobserved
     (run 1000 example_platform
        [Tick example_frame, KeyPress Key_I, Tick example_frame, KeyPress Key_W, Tick example_frame]
        (started key_order))"
proof -
  let ?evs = "[Tick example_frame, KeyPress Key_I, Tick example_frame, KeyPress Key_W, Tick example_frame]"
  from run_running [OF started_running, of 1 ?evs]
  have "\<exists>u. run 1 example_platform ?evs (started key_order) = Some u" by auto
  moreover from framerate_is_observer [of 1 0 "started key_order" example_platform ?evs 1000]
  have "map_option unobserved (run 1 example_platform ?evs (started key_order)) =
        map_option unobserved (run 1000 example_platform ?evs (started key_order))"
    by (elim conjE)
  ultimately show ?thesis by (intro conjI)
qed

end
